theory Spec2Isabelle
  imports Complex_Main
begin

section \<open>Binary64 numbers\<close>

text \<open>
  The library \<^verbatim>\<open>linear_algebra.py\<close> computes with Python floats and numpy
  \<^verbatim>\<open>float64\<close> scalars, which are IEEE-754 binary64 numbers. A number is the
  not-a-number value, one of the two infinities, the negative zero, or another finite value
  that is kept as the real number it denotes: \<open>Fin 0\<close> is the positive zero
  \<^verbatim>\<open>0.0\<close> and \<open>NZero\<close> is \<^verbatim>\<open>-0.0\<close>. The finite values of the format
  are the negative zero and the reals that rounding leaves unchanged (\<open>is_f64\<close>).
  Arguments are floats, except where a function is given a second time for integer
  arguments (the angles between an axis and a point, whose squares numpy then computes in
  64-bit integer arithmetic).
\<close>

datatype f64 = NaN | PInf | NInf | NZero | Fin real

text \<open>The real number that a finite float denotes.\<close>

fun real_of :: "f64 \<Rightarrow> real" where
  "real_of (Fin x) = x"
| "real_of _ = 0"

text \<open>
  Rounding to nearest, ties to even, with 53 significant bits: \<open>ulp_exp x\<close> is the
  exponent of the unit in the last place at \<open>x\<close> (never below that of the subnormal
  numbers), \<open>rne\<close> rounds a real to the nearest integer with ties to the even one, a
  rounded magnitude of \<open>2 ^ 1024\<close> or more overflows to an infinity, and a negative
  number that rounds to zero gives the negative zero.
\<close>

definition ulp_exp :: "real \<Rightarrow> int" where
  "ulp_exp x = (if x = 0 then - 1074 else max (\<lfloor>log 2 \<bar>x\<bar>\<rfloor> - 52) (- 1074))"

definition rne :: "real \<Rightarrow> int" where
  "rne y = (let f = \<lfloor>y\<rfloor>; d = y - of_int f in
            if d < 1 / 2 then f else if 1 / 2 < d then f + 1
            else if even f then f else f + 1)"

definition round_real :: "real \<Rightarrow> real" where
  "round_real x = of_int (rne (x / 2 powi ulp_exp x)) * 2 powi ulp_exp x"

definition overflow_bound :: real where
  "overflow_bound = 2 ^ 1024"

definition rnd :: "real \<Rightarrow> f64" where
  "rnd x = (let v = round_real x in
            if overflow_bound \<le> v then PInf
            else if v \<le> - overflow_bound then NInf
            else if v = 0 \<and> x < 0 then NZero else Fin v)"

definition is_f64 :: "real \<Rightarrow> bool" where
  "is_f64 x \<longleftrightarrow> rnd x = Fin x"

fun finite64 :: "f64 \<Rightarrow> bool" where
  "finite64 (Fin x) = is_f64 x"
| "finite64 NZero = True"
| "finite64 _ = False"

subsection \<open>The operators of Python on floats\<close>

fun py_lt :: "f64 \<Rightarrow> f64 \<Rightarrow> bool" where
  "py_lt NaN _ = False"
| "py_lt _ NaN = False"
| "py_lt PInf _ = False"
| "py_lt _ NInf = False"
| "py_lt NInf _ = True"
| "py_lt _ PInf = True"
| "py_lt NZero NZero = False"
| "py_lt NZero (Fin b) = (0 < b)"
| "py_lt (Fin a) NZero = (a < 0)"
| "py_lt (Fin a) (Fin b) = (a < b)"

definition py_gt :: "f64 \<Rightarrow> f64 \<Rightarrow> bool" where
  "py_gt a b = py_lt b a"

fun py_neg :: "f64 \<Rightarrow> f64" where
  "py_neg NaN = NaN"
| "py_neg PInf = NInf"
| "py_neg NInf = PInf"
| "py_neg NZero = Fin 0"
| "py_neg (Fin a) = (if a = 0 then NZero else Fin (- a))"

text \<open>
  Addition rounds the exact sum. An exact sum of zero is the positive zero, unless both
  terms are the negative zero.
\<close>

fun py_add :: "f64 \<Rightarrow> f64 \<Rightarrow> f64" where
  "py_add NaN _ = NaN"
| "py_add _ NaN = NaN"
| "py_add PInf NInf = NaN"
| "py_add NInf PInf = NaN"
| "py_add PInf _ = PInf"
| "py_add _ PInf = PInf"
| "py_add NInf _ = NInf"
| "py_add _ NInf = NInf"
| "py_add NZero NZero = NZero"
| "py_add NZero (Fin b) = rnd b"
| "py_add (Fin a) NZero = rnd a"
| "py_add (Fin a) (Fin b) = rnd (a + b)"

definition py_sub :: "f64 \<Rightarrow> f64 \<Rightarrow> f64" where
  "py_sub a b = py_add a (py_neg b)"

text \<open>
  \<^verbatim>\<open>fmod\<close> of the C library: the remainder of the division truncated towards
  zero, which has the sign of the dividend (also when it is zero) and is computed without
  rounding.
\<close>

definition trunc :: "real \<Rightarrow> int" where
  "trunc r = (if 0 \<le> r then \<lfloor>r\<rfloor> else \<lceil>r\<rceil>)"

fun c_fmod :: "f64 \<Rightarrow> f64 \<Rightarrow> f64" where
  "c_fmod (Fin a) (Fin b) =
     (if b = 0 then NaN
      else let r = a - b * of_int (trunc (a / b)) in
           if r = 0 \<and> a < 0 then NZero else Fin r)"
| "c_fmod (Fin a) PInf = Fin a"
| "c_fmod (Fin a) NInf = Fin a"
| "c_fmod NZero (Fin b) = (if b = 0 then NaN else NZero)"
| "c_fmod NZero PInf = NZero"
| "c_fmod NZero NInf = NZero"
| "c_fmod _ _ = NaN"

text \<open>
  The operator \<^verbatim>\<open>%\<close> on floats: \<^verbatim>\<open>fmod\<close>, then a non-zero remainder
  whose sign differs from the divisor's is moved by adding the divisor, and that addition
  rounds; a zero remainder becomes the zero with the sign of the divisor. (A zero divisor,
  which raises in Python and gives not-a-number in numpy, does not occur: the library only
  divides by 360.)
\<close>

definition py_mod :: "f64 \<Rightarrow> f64 \<Rightarrow> f64" where
  "py_mod vx wx =
     (let m = c_fmod vx wx in
      if m \<noteq> Fin 0 \<and> m \<noteq> NZero then
        (if py_lt wx (Fin 0) \<noteq> py_lt m (Fin 0) then py_add m wx else m)
      else if py_lt wx (Fin 0) then NZero else Fin 0)"

subsection \<open>The functions of numpy\<close>

text \<open>
  The numeric backend is outside the repository. \<^verbatim>\<open>np.abs\<close>, \<^verbatim>\<open>np.isnan\<close>
  and \<^verbatim>\<open>np.sqrt\<close> are exact or correctly rounded by the standard. The two unit
  conversions are the multiplications that numpy performs, by the binary64 constants
  \<open>180 / pi\<close> and \<open>pi / 180\<close> that it computes from its binary64 constant for
  \<open>pi\<close>. The trigonometric functions and \<^verbatim>\<open>np.power\<close> are modelled as returning
  the binary64 number nearest to the exact result, with the results at zeros, at
  not-a-number and at the infinities that IEEE-754 and C99 prescribe; their implementations
  may differ from the nearest number in the last place. The source only calls
  \<^verbatim>\<open>np.power\<close> with the exponent 2.
\<close>

definition np_nan :: f64 where
  "np_nan = NaN"

fun np_isnan :: "f64 \<Rightarrow> bool" where
  "np_isnan NaN = True"
| "np_isnan _ = False"

fun np_abs :: "f64 \<Rightarrow> f64" where
  "np_abs NaN = NaN"
| "np_abs PInf = PInf"
| "np_abs NInf = PInf"
| "np_abs NZero = Fin 0"
| "np_abs (Fin a) = Fin \<bar>a\<bar>"

definition np_power :: "f64 \<Rightarrow> nat \<Rightarrow> f64" where
  "np_power x n =
     (if n = 0 then Fin 1
      else case x of
             NaN \<Rightarrow> NaN
           | PInf \<Rightarrow> PInf
           | NInf \<Rightarrow> (if even n then PInf else NInf)
           | NZero \<Rightarrow> (if even n then Fin 0 else NZero)
           | Fin a \<Rightarrow> rnd (a ^ n))"

fun np_sqrt :: "f64 \<Rightarrow> f64" where
  "np_sqrt NaN = NaN"
| "np_sqrt PInf = PInf"
| "np_sqrt NInf = NaN"
| "np_sqrt NZero = NZero"
| "np_sqrt (Fin a) = (if a < 0 then NaN else rnd (sqrt a))"

definition NPY_PI :: real where
  "NPY_PI = 884279719003555 / 2 ^ 48"

definition RAD2DEG :: real where
  "RAD2DEG = round_real (180 / NPY_PI)"

definition DEG2RAD :: real where
  "DEG2RAD = round_real (NPY_PI / 180)"

fun np_radians :: "f64 \<Rightarrow> f64" where
  "np_radians (Fin a) = rnd (a * DEG2RAD)"
| "np_radians x = x"

fun np_degrees :: "f64 \<Rightarrow> f64" where
  "np_degrees (Fin a) = rnd (a * RAD2DEG)"
| "np_degrees x = x"

fun np_cos :: "f64 \<Rightarrow> f64" where
  "np_cos (Fin a) = rnd (cos a)"
| "np_cos NZero = Fin 1"
| "np_cos _ = NaN"

fun np_sin :: "f64 \<Rightarrow> f64" where
  "np_sin (Fin a) = rnd (sin a)"
| "np_sin NZero = NZero"
| "np_sin _ = NaN"

text \<open>
  The two-argument arctangent: the angle of the point \<open>(x, y)\<close> in \<open>[-pi, pi]\<close>,
  which is 0 at the origin and \<open>pi\<close> on the negative \<open>x\<close> axis. On floats the sign
  of a zero counts: \<open>y\<close> being the negative zero gives the negative of the result at the
  positive zero, and \<open>x\<close> being the negative zero counts as a negative \<open>x\<close>.
\<close>

definition atan2 :: "real \<Rightarrow> real \<Rightarrow> real" where
  "atan2 y x =
     (if 0 < x then arctan (y / x)
      else if x < 0 then (if 0 \<le> y then arctan (y / x) + pi else arctan (y / x) - pi)
      else if 0 < y then pi / 2 else if y < 0 then - (pi / 2) else 0)"

fun np_arctan2 :: "f64 \<Rightarrow> f64 \<Rightarrow> f64" where
  "np_arctan2 NaN _ = NaN"
| "np_arctan2 _ NaN = NaN"
| "np_arctan2 PInf PInf = rnd (pi / 4)"
| "np_arctan2 PInf NInf = rnd (3 * pi / 4)"
| "np_arctan2 PInf _ = rnd (pi / 2)"
| "np_arctan2 NInf PInf = rnd (- (pi / 4))"
| "np_arctan2 NInf NInf = rnd (- (3 * pi / 4))"
| "np_arctan2 NInf _ = rnd (- (pi / 2))"
| "np_arctan2 NZero PInf = NZero"
| "np_arctan2 NZero NInf = rnd (- pi)"
| "np_arctan2 NZero NZero = rnd (- pi)"
| "np_arctan2 NZero (Fin x) = (if x < 0 then rnd (- pi) else NZero)"
| "np_arctan2 (Fin y) PInf = (if y < 0 then NZero else Fin 0)"
| "np_arctan2 (Fin y) NInf = (if 0 \<le> y then rnd pi else rnd (- pi))"
| "np_arctan2 (Fin y) NZero =
     (if 0 < y then rnd (pi / 2) else if y < 0 then rnd (- (pi / 2)) else rnd pi)"
| "np_arctan2 (Fin y) (Fin x) = rnd (atan2 y x)"

subsection \<open>The functions of numpy on integers\<close>

text \<open>
  A coordinate may be an integer: an element of an integer array, or a Python
  \<^verbatim>\<open>int\<close> within the range of 64 bits, which numpy takes as an \<^verbatim>\<open>int64\<close>.
  On such arguments \<^verbatim>\<open>np.power\<close> and the sum of two of its results are computed in
  \<^verbatim>\<open>int64\<close> and wrap around, while \<^verbatim>\<open>np.sqrt\<close> and \<^verbatim>\<open>np.arctan2\<close>
  first convert an integer argument to the nearest binary64 number.
\<close>

definition int64 :: "int \<Rightarrow> bool" where
  "int64 n \<longleftrightarrow> - (2 ^ 63) \<le> n \<and> n < 2 ^ 63"

definition wrap_int64 :: "int \<Rightarrow> int" where
  "wrap_int64 n = (n + 2 ^ 63) mod 2 ^ 64 - 2 ^ 63"

definition np_power_int64 :: "int \<Rightarrow> nat \<Rightarrow> int" where
  "np_power_int64 a n = wrap_int64 (a ^ n)"

definition add_int64 :: "int \<Rightarrow> int \<Rightarrow> int" where
  "add_int64 a b = wrap_int64 (a + b)"

definition float_of_int64 :: "int \<Rightarrow> f64" where
  "float_of_int64 n = rnd (of_int n)"

section \<open>The library\<close>

subsection \<open>Constants\<close>

text \<open>\<^verbatim>\<open>f_eps = 1e-10\<close>: the literal denotes the binary64 number nearest to it.\<close>

definition f_eps :: f64 where
  "f_eps = rnd (1 / 10 ^ 10)"

subsection \<open>Matrices\<close>

text \<open>A matrix is the list of its rows, as it is written in the source.\<close>

definition Trans :: "f64 \<Rightarrow> f64 \<Rightarrow> f64 \<Rightarrow> f64 list list" where
  "Trans x y z = [[Fin 1, Fin 0, Fin 0, x],
                  [Fin 0, Fin 1, Fin 0, y],
                  [Fin 0, Fin 0, Fin 1, z],
                  [Fin 0, Fin 0, Fin 0, Fin 1]]"

definition Rot_yz :: "f64 \<Rightarrow> f64 list list" where
  "Rot_yz angle =
     (let a = np_radians angle; co = np_cos a; si = np_sin a in
      [[Fin 1, Fin 0, Fin 0, Fin 0],
       [Fin 0, co, py_neg si, Fin 0],
       [Fin 0, si, co, Fin 0],
       [Fin 0, Fin 0, Fin 0, Fin 1]])"

definition Rot_zx :: "f64 \<Rightarrow> f64 list list" where
  "Rot_zx angle =
     (let a = np_radians angle; co = np_cos a; si = np_sin a in
      [[co, Fin 0, si, Fin 0],
       [Fin 0, Fin 1, Fin 0, Fin 0],
       [py_neg si, Fin 0, co, Fin 0],
       [Fin 0, Fin 0, Fin 0, Fin 1]])"

definition Rot_xy :: "f64 \<Rightarrow> f64 list list" where
  "Rot_xy angle =
     (let a = np_radians angle; co = np_cos a; si = np_sin a in
      [[co, py_neg si, Fin 0, Fin 0],
       [si, co, Fin 0, Fin 0],
       [Fin 0, Fin 0, Fin 1, Fin 0],
       [Fin 0, Fin 0, Fin 0, Fin 1]])"

subsection \<open>Angles for a vector p = [x, y, z, w]\<close>

text \<open>
  A vector is a sequence that the functions index with 0, 1 and 2; an index past its end
  raises \<^verbatim>\<open>IndexError\<close>, and an exception raised for one element of a list
  comprehension ends the comprehension.
\<close>

datatype error = IndexError

definition getitem :: "'a list \<Rightarrow> nat \<Rightarrow> error + 'a" where
  "getitem p i = (if i < length p then Inr (p ! i) else Inl IndexError)"

definition bind_err :: "error + 'a \<Rightarrow> ('a \<Rightarrow> error + 'b) \<Rightarrow> error + 'b" where
  "bind_err m f = (case m of Inl e \<Rightarrow> Inl e | Inr v \<Rightarrow> f v)"

fun comprehension :: "('a \<Rightarrow> error + 'b) \<Rightarrow> 'a list \<Rightarrow> error + 'b list" where
  "comprehension f [] = Inr []"
| "comprehension f (x # xs) =
     bind_err (f x) (\<lambda>y. bind_err (comprehension f xs) (\<lambda>ys. Inr (y # ys)))"

definition fAngleYZ :: "f64 list \<Rightarrow> error + f64" where
  "fAngleYZ p =
     bind_err (getitem p 1) (\<lambda>y.
     bind_err (getitem p 2) (\<lambda>z.
       Inr (if py_lt (np_abs y) f_eps \<and> py_lt (np_abs z) f_eps then np_nan
            else np_degrees (np_arctan2 z y))))"

definition fAngleZX :: "f64 list \<Rightarrow> error + f64" where
  "fAngleZX p =
     bind_err (getitem p 0) (\<lambda>x.
     bind_err (getitem p 2) (\<lambda>z.
       Inr (if py_lt (np_abs x) f_eps \<and> py_lt (np_abs z) f_eps then np_nan
            else np_degrees (np_arctan2 x z))))"

definition fAngleXY :: "f64 list \<Rightarrow> error + f64" where
  "fAngleXY p =
     bind_err (getitem p 0) (\<lambda>x.
     bind_err (getitem p 1) (\<lambda>y.
       Inr (if py_lt (np_abs x) f_eps \<and> py_lt (np_abs y) f_eps then np_nan
            else np_degrees (np_arctan2 y x))))"

definition fAngleArrYZ :: "f64 list list \<Rightarrow> error + f64 list" where
  "fAngleArrYZ angleArr = comprehension fAngleYZ angleArr"

definition fAngleArrZX :: "f64 list list \<Rightarrow> error + f64 list" where
  "fAngleArrZX angleArr = comprehension fAngleZX angleArr"

definition fAngleArrXY :: "f64 list list \<Rightarrow> error + f64 list" where
  "fAngleArrXY angleArr = comprehension fAngleXY angleArr"

definition fAngleXR :: "f64 list \<Rightarrow> error + f64" where
  "fAngleXR p =
     bind_err (getitem p 0) (\<lambda>x.
     bind_err (getitem p 1) (\<lambda>y.
     bind_err (getitem p 2) (\<lambda>z.
       let r = np_sqrt (py_add (np_power z 2) (np_power y 2)) in
       Inr (np_degrees (np_arctan2 r x)))))"

definition fAngleYR :: "f64 list \<Rightarrow> error + f64" where
  "fAngleYR p =
     bind_err (getitem p 0) (\<lambda>x.
     bind_err (getitem p 1) (\<lambda>y.
     bind_err (getitem p 2) (\<lambda>z.
       let r = np_sqrt (py_add (np_power z 2) (np_power x 2)) in
       Inr (np_degrees (np_arctan2 r y)))))"

definition fAngleZR :: "f64 list \<Rightarrow> error + f64" where
  "fAngleZR p =
     bind_err (getitem p 0) (\<lambda>x.
     bind_err (getitem p 1) (\<lambda>y.
     bind_err (getitem p 2) (\<lambda>z.
       let r = np_sqrt (py_add (np_power x 2) (np_power y 2)) in
       Inr (np_degrees (np_arctan2 r z)))))"

definition fAngleArrXR :: "f64 list list \<Rightarrow> error + f64 list" where
  "fAngleArrXR angleArr = comprehension fAngleXR angleArr"

definition fAngleArrYR :: "f64 list list \<Rightarrow> error + f64 list" where
  "fAngleArrYR angleArr = comprehension fAngleYR angleArr"

definition fAngleArrZR :: "f64 list list \<Rightarrow> error + f64 list" where
  "fAngleArrZR angleArr = comprehension fAngleZR angleArr"

text \<open>
  The same three functions at a vector of integers: the squares and their sum are integers
  of 64 bits, and the square root and the arctangent convert their integer argument.
\<close>

definition fAngleXR_int64 :: "int list \<Rightarrow> error + f64" where
  "fAngleXR_int64 p =
     bind_err (getitem p 0) (\<lambda>x.
     bind_err (getitem p 1) (\<lambda>y.
     bind_err (getitem p 2) (\<lambda>z.
       let r = np_sqrt (float_of_int64 (add_int64 (np_power_int64 z 2) (np_power_int64 y 2))) in
       Inr (np_degrees (np_arctan2 r (float_of_int64 x))))))"

definition fAngleYR_int64 :: "int list \<Rightarrow> error + f64" where
  "fAngleYR_int64 p =
     bind_err (getitem p 0) (\<lambda>x.
     bind_err (getitem p 1) (\<lambda>y.
     bind_err (getitem p 2) (\<lambda>z.
       let r = np_sqrt (float_of_int64 (add_int64 (np_power_int64 z 2) (np_power_int64 x 2))) in
       Inr (np_degrees (np_arctan2 r (float_of_int64 y))))))"

definition fAngleZR_int64 :: "int list \<Rightarrow> error + f64" where
  "fAngleZR_int64 p =
     bind_err (getitem p 0) (\<lambda>x.
     bind_err (getitem p 1) (\<lambda>y.
     bind_err (getitem p 2) (\<lambda>z.
       let r = np_sqrt (float_of_int64 (add_int64 (np_power_int64 x 2) (np_power_int64 y 2))) in
       Inr (np_degrees (np_arctan2 r (float_of_int64 z))))))"

subsection \<open>Angle ranges\<close>

definition toAngle360 :: "f64 \<Rightarrow> f64" where
  "toAngle360 angle =
     (if np_isnan angle then np_nan
      else let a = py_mod angle (Fin 360) in
           if py_lt a (Fin 0) then py_add a (Fin 360) else a)"


definition toAngle180 :: "f64 \<Rightarrow> f64" where
  "toAngle180 angle =
     (let a = toAngle360 angle in
      if py_gt a (Fin 180) then py_sub a (Fin 360) else a)"

definition toAngleArr360 :: "f64 list \<Rightarrow> f64 list" where
  "toAngleArr360 angleArr = map toAngle360 angleArr"

definition toAngleArr180 :: "f64 list \<Rightarrow> f64 list" where
  "toAngleArr180 angleArr = map toAngle180 angleArr"

section \<open>Rounding\<close>

lemma floor_log2_eqI: 
  assumes "2 powi e \<le> x" "x < 2 powi (e + 1)"
  shows "\<lfloor>log 2 x\<rfloor> = e"
proof -
  have "0 < (2::real) powi e" by simp
  then have "0 < x" using assms by linarith
  moreover have "2 powr (real_of_int e + 1) = 2 powi (e + 1)"
    using powr_real_of_int'[of 2 "e + 1"] by simp
  ultimately show ?thesis using assms by (simp add: floor_log_eq_powr_iff powr_real_of_int')
qed

lemma floor_log2_bounds:
  assumes "0 < x"
  shows "2 powi \<lfloor>log 2 x\<rfloor> \<le> x" "x < 2 powi (\<lfloor>log 2 x\<rfloor> + 1)"
proof -
  have "\<lfloor>log 2 x\<rfloor> = \<lfloor>log 2 x\<rfloor>" by simp
  then have "2 powr \<lfloor>log 2 x\<rfloor> \<le> x \<and> x < 2 powr (\<lfloor>log 2 x\<rfloor> + 1)"
    using assms floor_log_eq_powr_iff[of x 2 "\<lfloor>log 2 x\<rfloor>"] by simp
  moreover have "2 powr (real_of_int \<lfloor>log 2 x\<rfloor> + 1) = 2 powi (\<lfloor>log 2 x\<rfloor> + 1)"
    using powr_real_of_int'[of 2 "\<lfloor>log 2 x\<rfloor> + 1"] by simp
  ultimately show "2 powi \<lfloor>log 2 x\<rfloor> \<le> x" "x < 2 powi (\<lfloor>log 2 x\<rfloor> + 1)"
    by (simp_all add: powr_real_of_int')
qed

lemma ulp_exp_eqI:
  assumes "2 powi e \<le> \<bar>x\<bar>" "\<bar>x\<bar> < 2 powi (e + 1)" "- 1022 \<le> e"
  shows "ulp_exp x = e - 52"
proof -
  have "0 < (2::real) powi e" by simp
  then have "0 < \<bar>x\<bar>" using assms(1) by linarith
  then have "x \<noteq> 0" by simp
  then show ?thesis using floor_log2_eqI[OF assms(1,2)] assms(3) by (simp add: ulp_exp_def)
qed

lemma ulp_exp_ge: "- 1074 \<le> ulp_exp x"
  by (simp add: ulp_exp_def)

lemma ulp_exp_upper: "\<bar>x\<bar> < 2 powi (ulp_exp x + 53)"
proof (cases "x = 0")
  case True then show ?thesis by simp
next
  case False
  then have pos: "0 < \<bar>x\<bar>" by simp
  have "\<lfloor>log 2 \<bar>x\<bar>\<rfloor> + 1 \<le> ulp_exp x + 53" using False by (simp add: ulp_exp_def)
  then have "(2::real) powi (\<lfloor>log 2 \<bar>x\<bar>\<rfloor> + 1) \<le> 2 powi (ulp_exp x + 53)"
    by (intro power_int_increasing) auto
  then show ?thesis using floor_log2_bounds(2)[OF pos] by linarith
qed

lemma ulp_exp_lower: "- 1074 < ulp_exp x \<Longrightarrow> 2 powi (ulp_exp x + 52) \<le> \<bar>x\<bar>"
proof -
  assume a: "- 1074 < ulp_exp x"
  then have nz: "x \<noteq> 0" by (auto simp: ulp_exp_def)
  then have "ulp_exp x = \<lfloor>log 2 \<bar>x\<bar>\<rfloor> - 52" using a by (auto simp: ulp_exp_def max_def split: if_splits)
  then show ?thesis using floor_log2_bounds(1)[of "\<bar>x\<bar>"] nz by simp
qed

lemma ulp_exp_minus: "ulp_exp (- x) = ulp_exp x"
  by (simp add: ulp_exp_def)

lemma rne_of_int [simp]: "rne (of_int k) = k"
  by (simp add: rne_def)

lemma rne_lower: "\<lfloor>y\<rfloor> \<le> rne y"
  by (simp add: rne_def Let_def)

lemma rne_upper: "rne y \<le> \<lfloor>y\<rfloor> + 1"
  by (simp add: rne_def Let_def)

lemma rne_err: "\<bar>of_int (rne y) - y\<bar> \<le> 1 / 2"
proof -
  have "of_int \<lfloor>y\<rfloor> \<le> y" "y < of_int \<lfloor>y\<rfloor> + 1" by linarith+
  then show ?thesis by (auto simp: rne_def Let_def)
qed

lemma rne_mono: 
  assumes "y \<le> y'" 
  shows "rne y \<le> rne y'"
proof (cases "\<lfloor>y\<rfloor> = \<lfloor>y'\<rfloor>")
  case True
  then show ?thesis using assms by (auto simp: rne_def Let_def)
next
  case False
  have "\<lfloor>y\<rfloor> \<le> \<lfloor>y'\<rfloor>" using assms by (rule floor_mono)
  then have "\<lfloor>y\<rfloor> + 1 \<le> \<lfloor>y'\<rfloor>" using False by simp
  then show ?thesis using rne_upper[of y] rne_lower[of y'] by linarith
qed

lemma rne_le_int: "y \<le> of_int k \<Longrightarrow> rne y \<le> k"
  using rne_mono[of y "of_int k"] by simp

lemma rne_ge_int: "of_int k \<le> y \<Longrightarrow> k \<le> rne y"
  using rne_mono[of "of_int k" y] by simp

lemma rne_minus: "rne (- y) = - rne y"
proof (cases "y = of_int \<lfloor>y\<rfloor>")
  case True
  then obtain k where "y = of_int k" ..
  then have "rne (- y) = - k" using rne_of_int[of "- k"] by simp
  then show ?thesis unfolding \<open>y = of_int k\<close> by simp
next
  case False
  moreover have "of_int \<lfloor>y\<rfloor> \<le> y" "y < of_int \<lfloor>y\<rfloor> + 1" by linarith+
  ultimately have lt: "of_int \<lfloor>y\<rfloor> < y" by linarith
  have f: "\<lfloor>- y\<rfloor> = - \<lfloor>y\<rfloor> - 1"
  proof (rule floor_unique)
    show "of_int (- \<lfloor>y\<rfloor> - 1) \<le> - y" using \<open>y < of_int \<lfloor>y\<rfloor> + 1\<close> by linarith
    show "- y < of_int (- \<lfloor>y\<rfloor> - 1) + 1" using lt by linarith
  qed
  show ?thesis unfolding rne_def Let_def f by auto
qed


lemma grid_coarser:
  assumes "q \<le> e"
  shows "\<exists>K::int. of_int k * (2::real) powi e = of_int K * 2 powi q"
proof -
  have "(2::real) powi e = 2 powi (e - q) * 2 powi q"
    using power_int_add [of "2::real" "e - q" q] by simp
  moreover have "(2::real) powi (e - q) = of_int (2 ^ nat (e - q))"
    using assms by (simp add: power_int_def)
  ultimately have "of_int k * (2::real) powi e = of_int (k * 2 ^ nat (e - q)) * 2 powi q"
    by simp
  then show ?thesis by blast
qed

lemma rne_0 [simp]: "rne 0 = 0"
  using rne_of_int [of 0] by simp

lemma round_real_0 [simp]: "round_real 0 = 0"
  by (simp add: round_real_def)

lemma round_real_le_grid:
  assumes "ulp_exp x \<le> e" "x \<le> of_int k * 2 powi e"
  shows "round_real x \<le> of_int k * 2 powi e"
proof -
  obtain K :: int where K: "of_int k * (2::real) powi e = of_int K * 2 powi ulp_exp x"
    using grid_coarser [OF assms(1)] by blast
  have pos: "0 < (2::real) powi ulp_exp x" by simp
  have "x / 2 powi ulp_exp x \<le> of_int K"
    using assms(2) K pos by (simp add: pos_divide_le_eq)
  then have "rne (x / 2 powi ulp_exp x) \<le> K" by (rule rne_le_int)
  then have "(of_int (rne (x / 2 powi ulp_exp x)) :: real) \<le> of_int K" by simp
  then have "round_real x \<le> of_int K * 2 powi ulp_exp x"
    unfolding round_real_def using pos by (simp add: mult_right_mono)
  then show ?thesis using K by simp
qed

lemma round_real_ge_grid:
  assumes "ulp_exp x \<le> e" "of_int k * 2 powi e \<le> x"
  shows "of_int k * 2 powi e \<le> round_real x"
proof -
  obtain K :: int where K: "of_int k * (2::real) powi e = of_int K * 2 powi ulp_exp x"
    using grid_coarser [OF assms(1)] by blast
  have pos: "0 < (2::real) powi ulp_exp x" by simp
  have "of_int K \<le> x / 2 powi ulp_exp x"
    using assms(2) K pos by (simp add: pos_le_divide_eq)
  then have "K \<le> rne (x / 2 powi ulp_exp x)" by (rule rne_ge_int)
  then have "(of_int K :: real) \<le> of_int (rne (x / 2 powi ulp_exp x))" by simp
  then have "of_int K * 2 powi ulp_exp x \<le> round_real x"
    unfolding round_real_def using pos by (simp add: mult_right_mono)
  then show ?thesis using K by simp
qed

lemma round_real_exact:
  assumes "ulp_exp x \<le> e" "x = of_int k * 2 powi e"
  shows "round_real x = x"
  using round_real_le_grid [OF assms(1), of k] round_real_ge_grid [OF assms(1), of k] assms(2)
  by simp

lemma round_real_minus: "round_real (- x) = - round_real x"
  by (simp add: round_real_def ulp_exp_minus rne_minus)

lemma round_real_err: "\<bar>round_real x - x\<bar> \<le> 2 powi ulp_exp x / 2"
proof -
  let ?u = "(2::real) powi ulp_exp x"
  have pos: "0 < ?u" by simp
  have "round_real x - x = (of_int (rne (x / ?u)) - x / ?u) * ?u"
    using pos by (simp add: round_real_def algebra_simps)
  then have "\<bar>round_real x - x\<bar> = \<bar>of_int (rne (x / ?u)) - x / ?u\<bar> * ?u"
    using pos by (simp add: abs_mult)
  also have "\<dots> \<le> (1 / 2) * ?u"
    using rne_err [of "x / ?u"] pos by (intro mult_right_mono) auto
  finally show ?thesis by simp
qed


lemma pow2_less_imp: "(2::real) powi a < 2 powi b \<Longrightarrow> a < b"
proof (rule ccontr)
  assume a: "(2::real) powi a < 2 powi b" and "\<not> a < b"
  then have "b \<le> a" by simp
  then have "(2::real) powi b \<le> 2 powi a" by (intro power_int_increasing) auto
  then show False using a by simp
qed

lemma pow2_mono: "a \<le> b \<Longrightarrow> (2::real) powi a \<le> 2 powi b"
  by (intro power_int_increasing) auto

lemma ulp_exp_less_imp:
  assumes "ulp_exp x < ulp_exp y"
  shows "\<bar>x\<bar> < 2 powi (ulp_exp y + 52)" "2 powi (ulp_exp y + 52) \<le> \<bar>y\<bar>"
proof -
  have "- 1074 < ulp_exp y" using assms ulp_exp_ge [of x] by linarith
  then show "2 powi (ulp_exp y + 52) \<le> \<bar>y\<bar>" by (rule ulp_exp_lower)
  have "ulp_exp x + 53 \<le> ulp_exp y + 52" using assms by simp
  then have "(2::real) powi (ulp_exp x + 53) \<le> 2 powi (ulp_exp y + 52)" by (rule pow2_mono)
  then show "\<bar>x\<bar> < 2 powi (ulp_exp y + 52)" using ulp_exp_upper [of x] by linarith
qed

lemma round_real_mono:
  assumes "x \<le> y"
  shows "round_real x \<le> round_real y"
proof -
  consider "ulp_exp x = ulp_exp y" | "ulp_exp x < ulp_exp y" | "ulp_exp y < ulp_exp x"
    by linarith
  then show ?thesis
  proof cases
    case 1
    have pos: "0 < (2::real) powi ulp_exp y" by simp
    have "x / 2 powi ulp_exp y \<le> y / 2 powi ulp_exp y"
      using assms pos by (simp add: divide_right_mono)
    then have "rne (x / 2 powi ulp_exp y) \<le> rne (y / 2 powi ulp_exp y)" by (rule rne_mono)
    then have "(of_int (rne (x / 2 powi ulp_exp y)) :: real) \<le> of_int (rne (y / 2 powi ulp_exp y))"
      by simp
    then show ?thesis unfolding round_real_def 1 using pos by (simp add: mult_right_mono)
  next
    case 2
    let ?B = "(2::real) powi (ulp_exp y + 52)"
    have b: "\<bar>x\<bar> < ?B" "?B \<le> \<bar>y\<bar>" using ulp_exp_less_imp [OF 2] by auto
    have "0 \<le> y"
    proof (rule ccontr)
      assume "\<not> 0 \<le> y"
      then have "\<bar>y\<bar> \<le> \<bar>x\<bar>" using assms by simp
      then show False using b by linarith
    qed
    then have "x \<le> ?B" "?B \<le> y" using b by auto
    then have "round_real x \<le> ?B" "?B \<le> round_real y"
      using 2 round_real_le_grid [of x "ulp_exp y + 52" 1]
        round_real_ge_grid [of y "ulp_exp y + 52" 1] by simp_all
    then show ?thesis by linarith
  next
    case 3
    let ?B = "(2::real) powi (ulp_exp x + 52)"
    have b: "\<bar>y\<bar> < ?B" "?B \<le> \<bar>x\<bar>" using ulp_exp_less_imp [OF 3] by auto
    have "x \<le> 0"
    proof (rule ccontr)
      assume "\<not> x \<le> 0"
      then have "\<bar>x\<bar> \<le> \<bar>y\<bar>" using assms by simp
      then show False using b by linarith
    qed
    then have "x \<le> - ?B" "- ?B \<le> y" using b by auto
    then have "round_real x \<le> - ?B" "- ?B \<le> round_real y"
      using 3 round_real_le_grid [of x "ulp_exp x + 52" "- 1"]
        round_real_ge_grid [of y "ulp_exp x + 52" "- 1"] by simp_all
    then show ?thesis by linarith
  qed
qed

lemma ulp_exp_le_repr:
  assumes "x = of_int m * 2 powi e" "\<bar>m\<bar> < 2 ^ 53" "- 1074 \<le> e"
  shows "ulp_exp x \<le> e"
proof (cases "- 1074 < ulp_exp x")
  case False
  then show ?thesis using assms(3) by simp
next
  case True
  have "\<bar>real_of_int m\<bar> < 2 ^ 53" using assms(2) by (metis of_int_abs of_int_less_numeral_power_cancel_iff)
  then have "\<bar>x\<bar> < 2 ^ 53 * 2 powi e"
    unfolding assms(1) by (simp add: abs_mult)
  also have "\<dots> = 2 powi (e + 53)"
    using power_int_add [of "2::real" e 53] by simp
  finally have "2 powi (ulp_exp x + 52) < (2::real) powi (e + 53)"
    using ulp_exp_lower [OF True] by linarith
  then have "ulp_exp x + 52 < e + 53" by (rule pow2_less_imp)
  then show ?thesis by simp
qed

lemma is_f64I:
  assumes "x = of_int m * 2 powi e" "\<bar>m\<bar> < 2 ^ 53" "- 1074 \<le> e" "e \<le> 971"
  shows "is_f64 x"
proof -
  have q: "ulp_exp x \<le> e" using assms(1,2,3) by (rule ulp_exp_le_repr)
  have r: "round_real x = x" using q assms(1) by (rule round_real_exact)
  have "\<bar>real_of_int m\<bar> < 2 ^ 53" using assms(2) by (metis of_int_abs of_int_less_numeral_power_cancel_iff)
  moreover have "(2::real) powi e \<le> 2 powi 971" using assms(4) by (rule pow2_mono)
  ultimately have "\<bar>real_of_int m\<bar> * 2 powi e < 2 ^ 53 * 2 powi 971"
    by (intro mult_less_le_imp_less) auto
  then have "\<bar>x\<bar> < overflow_bound"
    unfolding assms(1) overflow_bound_def by (simp add: abs_mult)
  then show ?thesis unfolding is_f64_def rnd_def Let_def r by auto
qed


lemma overflow_bound_pos [simp]: "0 < overflow_bound"
  by (simp add: overflow_bound_def)

lemma is_f64_iff: "is_f64 x \<longleftrightarrow> round_real x = x \<and> \<bar>x\<bar> < overflow_bound"
  by (auto simp: is_f64_def rnd_def Let_def)

lemma is_f64_0 [simp]: "is_f64 0"
  by (simp add: is_f64_iff)

lemma is_f64_minus [simp]: "is_f64 (- x) \<longleftrightarrow> is_f64 x"
  by (auto simp: is_f64_iff round_real_minus)

lemma is_f64_grid: "is_f64 x \<Longrightarrow> \<exists>k. x = of_int k * 2 powi ulp_exp x"
  unfolding is_f64_iff round_real_def by metis

lemma rnd_exact: "is_f64 x \<Longrightarrow> rnd x = Fin x"
  by (simp add: is_f64_def)

lemma rnd_not_NaN [simp]: "rnd x \<noteq> NaN"
  by (simp add: rnd_def Let_def)

lemma rnd_cases:
  obtains "rnd x = PInf" "overflow_bound \<le> round_real x"
  | "rnd x = NInf" "round_real x \<le> - (overflow_bound)"
  | "rnd x = NZero" "round_real x = 0" "x < 0"
  | "rnd x = Fin (round_real x)" "\<bar>round_real x\<bar> < overflow_bound"
      "\<not> (round_real x = 0 \<and> x < 0)"
proof -
  consider "overflow_bound \<le> round_real x" | "round_real x \<le> - overflow_bound"
    | "\<bar>round_real x\<bar> < overflow_bound" "round_real x = 0 \<and> x < 0"
    | "\<bar>round_real x\<bar> < overflow_bound" "\<not> (round_real x = 0 \<and> x < 0)" by linarith
  then show ?thesis
  proof cases
    case 1 then show ?thesis using that(1) by (simp add: rnd_def)
  next
    case 2
    moreover have "\<not> overflow_bound \<le> round_real x"
      using 2 overflow_bound_pos by linarith
    ultimately show ?thesis using that(2) by (simp add: rnd_def)
  next
    case 3
    moreover have "\<not> overflow_bound \<le> round_real x" "\<not> round_real x \<le> - overflow_bound"
      using 3(1) by linarith+
    ultimately show ?thesis using that(3) by (simp add: rnd_def)
  next
    case 4
    moreover have "\<not> overflow_bound \<le> round_real x" "\<not> round_real x \<le> - overflow_bound"
      using 4(1) by linarith+
    ultimately show ?thesis using that(4) by (auto simp: rnd_def)
  qed
qed

lemma rnd_nonneg_Fin:
  assumes "0 \<le> x" "\<bar>round_real x\<bar> < overflow_bound"
  shows "rnd x = Fin (round_real x)"
  using assms by (cases x rule: rnd_cases) auto

lemma rne_abs_le:
  assumes "\<bar>y\<bar> \<le> of_int k"
  shows "\<bar>rne y\<bar> \<le> k"
proof -
  have "y \<le> of_int k" "of_int (- k) \<le> y" using assms by auto
  then have "rne y \<le> k" "- k \<le> rne y" using rne_le_int rne_ge_int by blast+
  then show ?thesis by simp
qed

lemma round_real_is_f64:
  assumes "\<bar>round_real x\<bar> < overflow_bound"
  shows "is_f64 (round_real x)"
proof -
  let ?q = "ulp_exp x"
  let ?n = "rne (x / 2 powi ?q)"
  have pos: "0 < (2::real) powi ?q" by simp
  have v: "round_real x = of_int ?n * 2 powi ?q" by (simp add: round_real_def)
  have "\<bar>x\<bar> < 2 powi ?q * 2 ^ 53"
    using ulp_exp_upper [of x] power_int_add [of "2::real" ?q 53] by simp
  then have "\<bar>x / 2 powi ?q\<bar> \<le> of_int (2 ^ 53)"
    using pos by (simp add: abs_divide pos_divide_le_eq mult.commute)
  then have n: "\<bar>?n\<bar> \<le> 2 ^ 53" by (rule rne_abs_le)
  have "round_real (round_real x) = round_real x"
  proof (cases "\<bar>?n\<bar> < 2 ^ 53")
    case True
    have "ulp_exp (round_real x) \<le> ?q"
      using v True ulp_exp_ge [of x] by (rule ulp_exp_le_repr)
    then show ?thesis using v by (rule round_real_exact)
  next
    case False
    then have "\<bar>?n\<bar> = 2 ^ 53" using n by simp
    then consider "?n = 2 ^ 53" | "?n = - (2 ^ 53)" by linarith
    then have v': "round_real x = of_int (?n div 2) * 2 powi (?q + 1)"
    proof cases
      case 1
      show ?thesis unfolding v 1 using power_int_add [of "2::real" ?q 1] by simp
    next
      case 2
      show ?thesis unfolding v 2 using power_int_add [of "2::real" ?q 1] by simp
    qed
    have "\<bar>?n div 2\<bar> < 2 ^ 53" using \<open>\<bar>?n\<bar> = 2 ^ 53\<close> by (simp add: abs_if split: if_splits)
    then have "ulp_exp (round_real x) \<le> ?q + 1"
      using v' ulp_exp_ge [of x] by (intro ulp_exp_le_repr [of _ "?n div 2"]) auto
    then show ?thesis using v' by (rule round_real_exact)
  qed
  then show ?thesis using assms by (simp add: is_f64_iff)
qed

lemma rnd_Fin_is_f64: "rnd x = Fin v \<Longrightarrow> is_f64 v"
  by (cases x rule: rnd_cases) (auto intro: round_real_is_f64)

lemma rnd_bracket:
  assumes "is_f64 lo" "is_f64 hi" "lo \<le> x" "x \<le> hi" "0 \<le> lo"
  shows "\<exists>v. rnd x = Fin v \<and> lo \<le> v \<and> v \<le> hi \<and> is_f64 v"
proof -
  have "round_real lo \<le> round_real x" "round_real x \<le> round_real hi"
    using assms(3,4) by (auto intro: round_real_mono)
  then have b: "lo \<le> round_real x" "round_real x \<le> hi"
    using assms(1,2) by (simp_all add: is_f64_iff)
  moreover have "\<bar>lo\<bar> < overflow_bound" "\<bar>hi\<bar> < overflow_bound" using assms(1,2) by (simp_all add: is_f64_iff)
  ultimately have f: "\<bar>round_real x\<bar> < overflow_bound" by linarith
  have "0 \<le> x" using assms(3,5) by simp
  then have "rnd x = Fin (round_real x)" using f by (rule rnd_nonneg_Fin)
  then show ?thesis using b round_real_is_f64 [OF f] by simp
qed

subsection \<open>Rounding at given numbers\<close>

lemma round_real_normal:
  assumes "2 powi e \<le> \<bar>x\<bar>" "\<bar>x\<bar> < 2 powi (e + 1)" "- 1022 \<le> e"
  shows "round_real x = of_int (rne (x / 2 powi (e - 52))) * 2 powi (e - 52)"
    and "\<bar>round_real x\<bar> \<le> 2 powi (e + 1)" and "round_real x \<noteq> 0"
proof -
  have q: "ulp_exp x = e - 52" using assms by (rule ulp_exp_eqI)
  show "round_real x = of_int (rne (x / 2 powi (e - 52))) * 2 powi (e - 52)"
    by (simp add: round_real_def q)
  have "x \<le> of_int 1 * 2 powi (e + 1)" "of_int (- 1) * 2 powi (e + 1) \<le> x"
    using assms(2) by auto
  then have "round_real x \<le> of_int 1 * 2 powi (e + 1)"
    "of_int (- 1) * 2 powi (e + 1) \<le> round_real x"
    using q by (auto intro!: round_real_le_grid round_real_ge_grid simp del: of_int_1 of_int_minus)
  then show "\<bar>round_real x\<bar> \<le> 2 powi (e + 1)" by simp
  have pos: "0 < (2::real) powi e" by simp
  consider "2 powi e \<le> x" | "x \<le> - (2 powi e)" using assms(1) by linarith
  then show "round_real x \<noteq> 0"
  proof cases
    case 1
    then have "2 powi e \<le> round_real x"
      using q round_real_ge_grid [of x e 1] by simp
    then show ?thesis using pos by linarith
  next
    case 2
    then have "round_real x \<le> - (2 powi e)"
      using q round_real_le_grid [of x e "- 1"] by simp
    then show ?thesis using pos by linarith
  qed
qed

lemma rnd_normal:
  assumes "2 powi e \<le> \<bar>x\<bar>" "\<bar>x\<bar> < 2 powi (e + 1)" "- 1022 \<le> e" "e \<le> 1022"
  shows "rnd x = Fin (of_int (rne (x / 2 powi (e - 52))) * 2 powi (e - 52))"
proof -
  note r = round_real_normal [OF assms(1,2,3)]
  have "\<bar>round_real x\<bar> \<le> 2 powi (e + 1)" by (rule r(2))
  also have "\<dots> \<le> 2 powi 1023" using assms(4) by (intro pow2_mono) simp
  also have "\<dots> < overflow_bound" by (simp add: overflow_bound_def)
  finally have "\<bar>round_real x\<bar> < overflow_bound" .
  then have "rnd x = Fin (round_real x)" using r(3) by (cases x rule: rnd_cases) auto
  then show ?thesis using r(1) by simp
qed

lemma f_eps_value: "f_eps = Fin (7737125245533627 / 2 ^ 86)"
  unfolding f_eps_def
  by (subst rnd_normal [of "- 34"]) (simp_all add: rne_def Let_def)

lemma tiny_is_literal: "rnd (- (1 / 10 ^ 20)) = Fin (- (6646139978924579 / 2 ^ 119))"
  by (subst rnd_normal [of "- 67"]) (simp_all add: rne_def Let_def)

lemma rnd_360_minus_tiny: "rnd (- (6646139978924579 / 2 ^ 119) + 360) = Fin 360"
  by (subst rnd_normal [of 8]) (simp_all add: rne_def Let_def)

section \<open>The remainder by 360 and the angle ranges\<close>

lemma is_f64I2:
  assumes "x = of_int m * 2 powi e" "\<bar>x\<bar> < 2 powi (e + 53)" "- 1074 \<le> e"
    "\<bar>x\<bar> < overflow_bound"
  shows "is_f64 x"
proof -
  have pos: "0 < (2::real) powi e" by simp
  have "\<bar>real_of_int m\<bar> * 2 powi e < 2 ^ 53 * 2 powi e"
    using assms(1,2) power_int_add [of "2::real" e 53] by (simp add: abs_mult)
  then have "\<bar>real_of_int m\<bar> < 2 ^ 53" using pos by simp
  then have "\<bar>m\<bar> < 2 ^ 53" by (metis of_int_abs of_int_less_numeral_power_cancel_iff)
  then have "ulp_exp x \<le> e" using assms(1,3) by (intro ulp_exp_le_repr [of x m e]) auto
  then have "round_real x = x" using assms(1) by (rule round_real_exact)
  then show ?thesis using assms(4) by (simp add: is_f64_iff)
qed

lemma is_f64_numeral_small [simp]: "is_f64 360" "is_f64 180"
  using is_f64I [of 360 360 0] is_f64I [of 180 180 0] by simp_all

lemma fmod_360_bounds:
  fixes a :: real
  defines "r \<equiv> a - 360 * of_int (trunc (a / 360))"
  shows "\<bar>r\<bar> < 360" "0 \<le> a \<Longrightarrow> 0 \<le> r" "a \<le> 0 \<Longrightarrow> r \<le> 0" "\<bar>r\<bar> \<le> \<bar>a\<bar>"
proof -
  have f: "360 * of_int \<lfloor>a / 360\<rfloor> \<le> a" "a < 360 * of_int \<lfloor>a / 360\<rfloor> + 360"
    using of_int_floor_le [of "a / 360"] floor_correct [of "a / 360"] by linarith+
  have c: "a \<le> 360 * of_int \<lceil>a / 360\<rceil>" "360 * of_int \<lceil>a / 360\<rceil> - 360 < a"
    using le_of_int_ceiling [of "a / 360"] ceiling_correct [of "a / 360"] by linarith+
  have nn: "0 \<le> a \<Longrightarrow> 0 \<le> r \<and> r < 360 \<and> r \<le> a"
  proof -
    assume a: "0 \<le> a"
    then have "0 \<le> \<lfloor>a / 360\<rfloor>" by simp
    then have "0 \<le> real_of_int \<lfloor>a / 360\<rfloor>" by simp
    moreover have "r = a - 360 * of_int \<lfloor>a / 360\<rfloor>" using a by (simp add: r_def trunc_def)
    ultimately show ?thesis using f by linarith
  qed
  have ng: "a < 0 \<Longrightarrow> r \<le> 0 \<and> - 360 < r \<and> a \<le> r"
  proof -
    assume a: "a < 0"
    then have "\<lceil>a / 360\<rceil> \<le> 0" by (simp add: ceiling_le_iff)
    then have "real_of_int \<lceil>a / 360\<rceil> \<le> 0" by simp
    moreover have "r = a - 360 * of_int \<lceil>a / 360\<rceil>" using a by (simp add: r_def trunc_def)
    ultimately show ?thesis using c by linarith
  qed
  show "\<bar>r\<bar> < 360" using nn ng by (cases "0 \<le> a") auto
  show "0 \<le> a \<Longrightarrow> 0 \<le> r" using nn by simp
  show "a \<le> 0 \<Longrightarrow> r \<le> 0" using nn ng by (cases "a = 0") auto
  show "\<bar>r\<bar> \<le> \<bar>a\<bar>" using nn ng by (cases "0 \<le> a") auto
qed

lemma fmod_360_is_f64:
  assumes "is_f64 a"
  shows "is_f64 (a - 360 * of_int (trunc (a / 360)))"
proof -
  let ?r = "a - 360 * of_int (trunc (a / 360))"
  let ?e = "min (ulp_exp a) 3"
  obtain k where k: "a = of_int k * 2 powi ulp_exp a" using is_f64_grid [OF assms] by blast
  obtain A :: int where A: "of_int k * (2::real) powi ulp_exp a = of_int A * 2 powi ?e"
    using grid_coarser [of ?e "ulp_exp a" k] by auto
  obtain C :: int where C: "of_int 45 * (2::real) powi 3 = of_int C * 2 powi ?e"
    using grid_coarser [of ?e 3 45] by auto
  have c360: "(360::real) = of_int C * 2 powi ?e" using C by simp
  have "?r = of_int A * 2 powi ?e - (of_int C * 2 powi ?e) * of_int (trunc (a / 360))"
    using k A c360 by simp
  then have r: "?r = of_int (A - C * trunc (a / 360)) * 2 powi ?e"
    by (simp add: algebra_simps)
  have b: "\<bar>?r\<bar> < 360" "\<bar>?r\<bar> \<le> \<bar>a\<bar>" using fmod_360_bounds [of a] by auto
  have "\<bar>?r\<bar> < 2 powi (?e + 53)"
  proof (cases "ulp_exp a \<le> 3")
    case True
    then show ?thesis using b(2) ulp_exp_upper [of a] by (simp add: min_def)
  next
    case False
    then have "?e = 3" by simp
    then show ?thesis using b(1) by simp
  qed
  moreover have "- 1074 \<le> ?e" using ulp_exp_ge [of a] by simp
  moreover have "\<bar>?r\<bar> < overflow_bound" using b(1) by (simp add: overflow_bound_def)
  ultimately show ?thesis using r by (intro is_f64I2 [of ?r "A - C * trunc (a / 360)" ?e]) auto
qed

text \<open>What \<^verbatim>\<open>toAngle360\<close> computes on a finite number.\<close>

lemma toAngle360_nonneg:
  assumes "0 \<le> a"
  shows "toAngle360 (Fin a) = Fin (a - 360 * of_int \<lfloor>a / 360\<rfloor>)"
proof -
  let ?r = "a - 360 * of_int (trunc (a / 360))"
  have "0 \<le> ?r" using fmod_360_bounds(2) [OF assms] .
  then have "\<not> ?r < 0" by simp
  then have "toAngle360 (Fin a) = Fin ?r"
    by (simp add: toAngle360_def py_mod_def Let_def)
  then show ?thesis using assms by (simp add: trunc_def)
qed

lemma toAngle360_neg:
  assumes "a < 0"
  shows "toAngle360 (Fin a) =
    (let r = a - 360 * of_int \<lceil>a / 360\<rceil> in if r = 0 then Fin 0 else rnd (r + 360))"
proof -
  let ?r = "a - 360 * of_int \<lceil>a / 360\<rceil>"
  have t: "trunc (a / 360) = \<lceil>a / 360\<rceil>" using assms by (simp add: trunc_def)
  have b: "?r \<le> 0" "\<bar>?r\<bar> < 360" using fmod_360_bounds [of a] assms unfolding t by auto
  show ?thesis
  proof (cases "?r = 0")
    case True
    then show ?thesis using t by (simp add: toAngle360_def py_mod_def Let_def)
  next
    case False
    then have lt: "?r < 0" using b by simp
    have "is_f64 0" "is_f64 360" "0 \<le> ?r + 360" "?r + 360 \<le> 360" using b by auto
    then obtain v where v: "rnd (?r + 360) = Fin v" "0 \<le> v" using rnd_bracket by blast
    have "py_mod (Fin a) (Fin 360) = Fin v"
      using False lt v t by (simp add: py_mod_def Let_def)
    then show ?thesis using v False by (simp add: toAngle360_def Let_def)
  qed
qed

lemma toAngle360_range:
  assumes "is_f64 a"
  shows "\<exists>v. toAngle360 (Fin a) = Fin v \<and> 0 \<le> v \<and> v \<le> 360 \<and> is_f64 v"
proof (cases "0 \<le> a")
  case True
  have "is_f64 (a - 360 * of_int (trunc (a / 360)))" using assms by (rule fmod_360_is_f64)
  then show ?thesis
    using toAngle360_nonneg [OF True] fmod_360_bounds [of a] True by (simp add: trunc_def)
next
  case False
  then have neg: "a < 0" by simp
  let ?r = "a - 360 * of_int \<lceil>a / 360\<rceil>"
  have t: "trunc (a / 360) = \<lceil>a / 360\<rceil>" using neg by (simp add: trunc_def)
  have b: "?r \<le> 0" "\<bar>?r\<bar> < 360" using fmod_360_bounds [of a] neg unfolding t by auto
  show ?thesis
  proof (cases "?r = 0")
    case True
    then show ?thesis using toAngle360_neg [OF neg] by (simp add: Let_def)
  next
    case False
    have "is_f64 0" "is_f64 360" "0 \<le> ?r + 360" "?r + 360 \<le> 360" using b by auto
    then obtain v where "rnd (?r + 360) = Fin v" "0 \<le> v" "v \<le> 360" "is_f64 v"
      using rnd_bracket by blast
    then show ?thesis using toAngle360_neg [OF neg] False by (simp add: Let_def)
  qed
qed

lemma sub_360_is_f64:
  assumes "is_f64 v" "180 < v" "v \<le> 360"
  shows "is_f64 (v - 360)"
proof -
  have "(2::real) powi 7 < 2 powi (ulp_exp v + 53)"
    using ulp_exp_upper [of v] assms(2) by simp
  then have q: "- 45 \<le> ulp_exp v" using pow2_less_imp [of 7 "ulp_exp v + 53"] by simp
  obtain k where k: "v = of_int k * 2 powi ulp_exp v" using is_f64_grid [OF assms(1)] by blast
  obtain K :: int where K: "of_int k * (2::real) powi ulp_exp v = of_int K * 2 powi (- 45)"
    using grid_coarser [OF q, of k] by auto
  have "(360::real) = of_int (360 * 2 ^ 45) * 2 powi (- 45)" by simp
  then have "v - 360 = of_int K * 2 powi (- 45) - of_int (360 * 2 ^ 45) * 2 powi (- 45)"
    using k K by simp
  then have "v - 360 = of_int (K - 360 * 2 ^ 45) * 2 powi (- 45)"
    by (simp only: of_int_diff left_diff_distrib)
  moreover have "\<bar>v - 360\<bar> < 2 powi (- 45 + 53)" using assms(2,3) by simp
  moreover have "\<bar>v - 360\<bar> < overflow_bound" using assms(2,3) by (simp add: overflow_bound_def)
  ultimately show ?thesis by (intro is_f64I2 [of "v - 360" "K - 360 * 2 ^ 45" "- 45"]) auto
qed

lemma is_f64_190: "is_f64 190"
  using is_f64I [of 190 190 0] by simp

lemma toAngle360_190: "toAngle360 (Fin 190) = Fin 190"
  by (simp add: toAngle360_nonneg)

lemma is_f64_tiny: "is_f64 (- (6646139978924579 / 2 ^ 119))"
  using is_f64I [of "- (6646139978924579 / 2 ^ 119)" "- 6646139978924579" "- 119"] by simp

lemma toAngle360_tiny: "toAngle360 (Fin (- (6646139978924579 / 2 ^ 119))) = Fin 360"
proof -
  have "\<lceil>- (6646139978924579 / 2 ^ 119) / (360::real)\<rceil> = 0" by (simp add: ceiling_eq_iff)
  then show ?thesis
    using rnd_360_minus_tiny by (simp add: toAngle360_neg Let_def)
qed

lemma toAngle360_360: "toAngle360 (Fin 360) = Fin 0"
  by (simp add: toAngle360_nonneg)

lemma toAngle360_examples:
  "toAngle360 (Fin 360) = Fin 0" "toAngle360 (Fin (- 1)) = Fin 359"
  "toAngle360 (Fin (- 181)) = Fin 179" "toAngle360 (Fin (- 180)) = Fin 180"
  "toAngle360 (Fin 180) = Fin 180"
proof -
  have r: "rnd 359 = Fin 359" "rnd 179 = Fin 179" "rnd 180 = Fin 180"
    using is_f64I [of 359 359 0] is_f64I [of 179 179 0] is_f64I [of 180 180 0]
    by (simp_all add: rnd_exact)
  have c: "\<lceil>- (1::real) / 360\<rceil> = 0" "\<lceil>- (181::real) / 360\<rceil> = 0" "\<lceil>- (180::real) / 360\<rceil> = 0"
    by (simp_all add: ceiling_eq_iff)
  show "toAngle360 (Fin 360) = Fin 0" "toAngle360 (Fin 180) = Fin 180"
    by (simp_all add: toAngle360_nonneg)
  show "toAngle360 (Fin (- 1)) = Fin 359" "toAngle360 (Fin (- 181)) = Fin 179"
    "toAngle360 (Fin (- 180)) = Fin 180"
    using r c by (simp_all add: toAngle360_neg Let_def)
qed

lemma toAngle360_NZero: "toAngle360 NZero = Fin 0"
  by (simp add: toAngle360_def py_mod_def)

lemma toAngle360_finite:
  assumes "finite64 angle"
  shows "\<exists>v. toAngle360 angle = Fin v \<and> 0 \<le> v \<and> v \<le> 360 \<and> is_f64 v"
proof (cases angle)
  case (Fin x)
  then show ?thesis using assms toAngle360_range [of x] by simp
next
  case NZero
  then show ?thesis by (simp add: toAngle360_NZero)
qed (use assms in simp_all)

lemma toAngle180_idempotent:
  assumes "finite64 angle"
  shows "toAngle180 (toAngle180 angle) = toAngle180 angle"
proof -
  obtain a where a: "toAngle360 angle = Fin a" "0 \<le> a" "a \<le> 360" "is_f64 a"
    using toAngle360_finite [OF assms] by auto
  show ?thesis
  proof (cases "180 < a")
    case False
    then have r: "toAngle180 angle = Fin a" using a(1) by (simp add: toAngle180_def py_gt_def)
    have "\<lfloor>a / 360\<rfloor> = 0" using a(2) False by (simp add: floor_eq_iff)
    then have "toAngle360 (Fin a) = Fin a" using a(2) by (simp add: toAngle360_nonneg)
    then have "toAngle180 (Fin a) = Fin a" using False by (simp add: toAngle180_def py_gt_def)
    then show ?thesis using r by simp
  next
    case True
    have "is_f64 (a - 360)" using a(4) True a(3) by (rule sub_360_is_f64)
    then have s: "rnd (a + - 360) = Fin (a - 360)" using rnd_exact [of "a - 360"] by simp
    then have r: "toAngle180 angle = Fin (a - 360)"
      using a(1) True by (simp add: toAngle180_def py_gt_def py_sub_def)
    show ?thesis
    proof (cases "a = 360")
      case True
      have "toAngle360 (Fin 0) = Fin 0" by (simp add: toAngle360_nonneg)
      then have "toAngle180 (Fin 0) = Fin 0" by (simp add: toAngle180_def py_gt_def)
      then show ?thesis using r True by simp
    next
      case False
      then have neg: "a - 360 < 0" using a(3) by simp
      have c: "\<lceil>(a - 360) / 360\<rceil> = 0" using True neg by (simp add: ceiling_eq_iff)
      have "rnd (a - 360 + 360) = Fin a" using rnd_exact [OF a(4)] by simp
      then have "toAngle360 (Fin (a - 360)) = Fin a"
        using toAngle360_neg [OF neg] c neg by (simp add: Let_def)
      then have "toAngle180 (Fin (a - 360)) = Fin (a - 360)"
        using True s by (simp add: toAngle180_def py_gt_def py_sub_def)
      then show ?thesis using r by simp
    qed
  qed
qed

section \<open>Error results and list comprehensions\<close>

lemma getitem_in_range [simp]: "i < length p \<Longrightarrow> getitem p i = Inr (p ! i)"
  by (simp add: getitem_def)

lemma getitem_out_of_range [simp]: "length p \<le> i \<Longrightarrow> getitem p i = Inl IndexError"
  by (simp add: getitem_def)

lemma bind_err_simps [simp]:
  "bind_err (Inl e) f = Inl e"
  "bind_err (Inr v) f = f v"
  by (simp_all add: bind_err_def)

lemma bind_err_eq_Inr: "bind_err m f = Inr r \<longleftrightarrow> (\<exists>v. m = Inr v \<and> f v = Inr r)"
  by (cases m) simp_all

lemma comprehension_eq_Inr:
  "comprehension f xs = Inr ys \<longleftrightarrow>
     length ys = length xs \<and> (\<forall>i < length xs. f (xs ! i) = Inr (ys ! i))"
proof (induction xs arbitrary: ys)
  case Nil
  then show ?case by auto
next
  case (Cons x xs)
  show ?case
  proof (cases ys)
    case Nil
    then show ?thesis by (auto simp: bind_err_eq_Inr)
  next
    case (Cons y ys')
    have "(\<forall>i < Suc (length xs). f ((x # xs) ! i) = Inr ((y # ys') ! i)) \<longleftrightarrow>
          f x = Inr y \<and> (\<forall>i < length xs. f (xs ! i) = Inr (ys' ! i))"
      by (auto simp: nth_Cons split: nat.splits)
    then show ?thesis using Cons.IH [of ys'] Cons by (auto simp: bind_err_eq_Inr)
  qed
qed

lemma comprehension_total:
  "(\<forall>x \<in> set xs. \<exists>y. f x = Inr y) \<Longrightarrow> \<exists>ys. comprehension f xs = Inr ys"
proof (induction xs)
  case Nil
  then show ?case by simp
next
  case (Cons x xs)
  then obtain y ys where "f x = Inr y" "comprehension f xs = Inr ys" by auto
  then show ?case by simp
qed

lemma comprehension_Inr_map:
  "(\<forall>x \<in> set xs. f x = Inr (g x)) \<Longrightarrow> comprehension f xs = Inr (map g xs)"
  by (induction xs) simp_all

lemma extractor_total:
  assumes "3 \<le> length p"
  shows "\<exists>v. fAngleYZ p = Inr v" "\<exists>v. fAngleZX p = Inr v" "\<exists>v. fAngleXY p = Inr v"
    "\<exists>v. fAngleXR p = Inr v" "\<exists>v. fAngleYR p = Inr v" "\<exists>v. fAngleZR p = Inr v"
  using assms
  by (auto simp: fAngleYZ_def fAngleZX_def fAngleXY_def fAngleXR_def fAngleYR_def
      fAngleZR_def Let_def getitem_def)

lemma batch_extractor:
  assumes "\<forall>p \<in> set ps. \<exists>v. f p = Inr v"
  shows "\<exists>rs. comprehension f ps = Inr rs \<and> length rs = length ps \<and>
              (\<forall>i < length ps. f (ps ! i) = Inr (rs ! i))"
  using comprehension_total [OF assms] comprehension_eq_Inr [of f ps] by auto

section \<open>The binary64 constants for pi\<close>

lemma arctan_partial_sums:
  fixes x :: real
  assumes "0 \<le> x" "x \<le> 1"
  shows "(\<Sum>k<2 * n. (- 1) ^ k * (1 / real (k * 2 + 1) * x ^ (k * 2 + 1))) \<le> arctan x"
    and "arctan x \<le> (\<Sum>k<2 * n + 1. (- 1) ^ k * (1 / real (k * 2 + 1) * x ^ (k * 2 + 1)))"
proof -
  let ?a = "\<lambda>k. 1 / real (k * 2 + 1) * x ^ (k * 2 + 1)"
  have ax: "\<bar>x\<bar> \<le> 1" using assms by simp
  have z: "?a \<longlonglongrightarrow> 0" using ax by (rule zeroseq_arctan_series)
  have nn: "0 \<le> ?a k" for k using assms by simp
  have dec: "?a (Suc k) \<le> ?a k" for k
  proof -
    have "x ^ (Suc k * 2 + 1) \<le> x ^ (k * 2 + 1)"
      using assms by (intro power_decreasing) auto
    moreover have "1 / real (Suc k * 2 + 1) \<le> 1 / real (k * 2 + 1)"
      by (intro divide_left_mono) auto
    ultimately show ?thesis using assms by (intro mult_mono) auto
  qed
  have s: "arctan x = (\<Sum>k. (- 1) ^ k * ?a k)" using ax by (rule arctan_series)
  show "(\<Sum>k<2 * n. (- 1) ^ k * ?a k) \<le> arctan x"
    unfolding s using z nn dec by (rule summable_Leibniz'(2))
  show "arctan x \<le> (\<Sum>k<2 * n + 1. (- 1) ^ k * ?a k)"
    unfolding s using z nn dec by (rule summable_Leibniz'(4))
qed

text \<open>Machin's formula places \<open>pi\<close> within half a unit in the last place of the constant.\<close>

lemma pi_near_NPY_PI: "NPY_PI - 1 / 2 ^ 52 < pi" "pi < NPY_PI + 1 / 2 ^ 52"
proof -
  have m: "pi = 16 * arctan (1 / 5) - 4 * arctan (1 / 239)" using machin by simp
  have l5: "(\<Sum>k<2 * 6. (- 1) ^ k * (1 / real (k * 2 + 1) * (1 / 5) ^ (k * 2 + 1)))
              \<le> arctan (1 / 5)"
    by (rule arctan_partial_sums) simp_all
  have u5: "arctan (1 / 5)
              \<le> (\<Sum>k<2 * 6 + 1. (- 1) ^ k * (1 / real (k * 2 + 1) * (1 / 5) ^ (k * 2 + 1)))"
    by (rule arctan_partial_sums) simp_all
  have l239: "(\<Sum>k<2 * 2. (- 1) ^ k * (1 / real (k * 2 + 1) * (1 / 239) ^ (k * 2 + 1)))
              \<le> arctan (1 / 239)"
    by (rule arctan_partial_sums) simp_all
  have u239: "arctan (1 / 239)
              \<le> (\<Sum>k<2 * 2 + 1. (- 1) ^ k * (1 / real (k * 2 + 1) * (1 / 239) ^ (k * 2 + 1)))"
    by (rule arctan_partial_sums) simp_all
  show "NPY_PI - 1 / 2 ^ 52 < pi"
    unfolding m NPY_PI_def using l5 u239 by (simp add: eval_nat_numeral)
  show "pi < NPY_PI + 1 / 2 ^ 52"
    unfolding m NPY_PI_def using u5 l239 by (simp add: eval_nat_numeral)
qed

lemma rne_near_int:
  assumes "\<bar>y - of_int k\<bar> < 1 / 2"
  shows "rne y = k"
proof -
  have "\<bar>real_of_int (rne y) - of_int k\<bar> < 1" using rne_err [of y] assms by linarith
  then have "\<bar>real_of_int (rne y - k)\<bar> < 1" by simp
  then have "\<bar>rne y - k\<bar> < 1" by linarith
  then show ?thesis by simp
qed

lemma round_real_near_grid:
  assumes "\<bar>y - of_int k * 2 powi ulp_exp y\<bar> < 2 powi ulp_exp y / 2"
  shows "round_real y = of_int k * 2 powi ulp_exp y"
proof -
  let ?u = "(2::real) powi ulp_exp y"
  have pos: "0 < ?u" by simp
  have "y / ?u - of_int k = (y - of_int k * ?u) / ?u" using pos by (simp add: field_simps)
  then have "\<bar>y / ?u - of_int k\<bar> = \<bar>y - of_int k * ?u\<bar> / ?u" using pos by (simp add: abs_divide)
  also have "\<dots> < (?u / 2) / ?u" using assms pos by (simp add: divide_strict_right_mono)
  also have "\<dots> = 1 / 2" using pos by simp
  finally have "rne (y / ?u) = k" by (rule rne_near_int)
  then show ?thesis by (simp add: round_real_def)
qed

lemma half_ulp_scaled:
  fixes p n :: real
  assumes d: "\<bar>p - n\<bar> < 1 / 2 ^ 52"
  shows "\<bar>p / 2 - n / 2\<bar> < 2 powi (- 52) / 2" "\<bar>p / 4 - n / 4\<bar> < 2 powi (- 53) / 2"
proof -
  have e: "p - n < 1 / 2 ^ 52" "n - p < 1 / 2 ^ 52" using d by linarith+
  have "p / 2 - n / 2 < 1 / 2 ^ 53" "n / 2 - p / 2 < 1 / 2 ^ 53" using e by simp_all
  then have "\<bar>p / 2 - n / 2\<bar> < 1 / 2 ^ 53" by linarith
  then show "\<bar>p / 2 - n / 2\<bar> < 2 powi (- 52) / 2" by simp
  have "p / 4 - n / 4 < 1 / 2 ^ 54" "n / 4 - p / 4 < 1 / 2 ^ 54" using e by simp_all
  then have "\<bar>p / 4 - n / 4\<bar> < 1 / 2 ^ 54" by linarith
  then show "\<bar>p / 4 - n / 4\<bar> < 2 powi (- 53) / 2" by simp
qed

lemma NPY_PI_bounds: "3 < NPY_PI" "NPY_PI < 4"
  by (simp_all add: NPY_PI_def)

lemma round_real_pi_multiples:
  "round_real pi = NPY_PI" "round_real (pi / 2) = NPY_PI / 2" "round_real (pi / 4) = NPY_PI / 4"
proof -
  note b = pi_near_NPY_PI NPY_PI_bounds
  have p: "3 < pi" "pi < 4" using pi_near_NPY_PI by (simp_all add: NPY_PI_def)
  have g: "NPY_PI = of_int 7074237752028440 * 2 powi (- 51)"
    "NPY_PI / 2 = of_int 7074237752028440 * 2 powi (- 52)"
    "NPY_PI / 4 = of_int 7074237752028440 * 2 powi (- 53)"
    by (simp_all add: NPY_PI_def)
  have q: "ulp_exp pi = - 51" "ulp_exp (pi / 2) = - 52" "ulp_exp (pi / 4) = - 53"
    using ulp_exp_eqI [of 1 pi] ulp_exp_eqI [of 0 "pi / 2"] ulp_exp_eqI [of "- 1" "pi / 4"] p
    by simp_all
  have d: "\<bar>pi - NPY_PI\<bar> < 1 / 2 ^ 52" using pi_near_NPY_PI by linarith
  have "\<bar>pi - NPY_PI\<bar> < 2 powi (- 51) / 2" using d by simp
  then have "\<bar>pi - of_int 7074237752028440 * 2 powi ulp_exp pi\<bar> < 2 powi ulp_exp pi / 2"
    unfolding q g [symmetric] .
  then have "round_real pi = of_int 7074237752028440 * 2 powi ulp_exp pi"
    by (rule round_real_near_grid)
  then show "round_real pi = NPY_PI" unfolding q g [symmetric] .
  have "\<bar>pi / 2 - NPY_PI / 2\<bar> < 2 powi (- 52) / 2" using d by (rule half_ulp_scaled)
  then have "\<bar>pi / 2 - of_int 7074237752028440 * 2 powi ulp_exp (pi / 2)\<bar>
               < 2 powi ulp_exp (pi / 2) / 2"
    unfolding q g [symmetric] .
  then have "round_real (pi / 2) = of_int 7074237752028440 * 2 powi ulp_exp (pi / 2)"
    by (rule round_real_near_grid)
  then show "round_real (pi / 2) = NPY_PI / 2" unfolding q g [symmetric] .
  have "\<bar>pi / 4 - NPY_PI / 4\<bar> < 2 powi (- 53) / 2" using d by (rule half_ulp_scaled)
  then have "\<bar>pi / 4 - of_int 7074237752028440 * 2 powi ulp_exp (pi / 4)\<bar>
               < 2 powi ulp_exp (pi / 4) / 2"
    unfolding q g [symmetric] .
  then have "round_real (pi / 4) = of_int 7074237752028440 * 2 powi ulp_exp (pi / 4)"
    by (rule round_real_near_grid)
  then show "round_real (pi / 4) = NPY_PI / 4" unfolding q g [symmetric] .
qed

lemma rnd_0 [simp]: "rnd 0 = Fin 0"
  using rnd_exact [of 0] by simp

lemma rnd_pi_multiples:
  "rnd pi = Fin NPY_PI" "rnd (pi / 2) = Fin (NPY_PI / 2)" "rnd (pi / 4) = Fin (NPY_PI / 4)"
proof -
  have o: "4 < overflow_bound" by (simp add: overflow_bound_def)
  show "rnd pi = Fin NPY_PI"
    using rnd_nonneg_Fin [of pi] round_real_pi_multiples NPY_PI_bounds o by simp
  show "rnd (pi / 2) = Fin (NPY_PI / 2)"
    using rnd_nonneg_Fin [of "pi / 2"] round_real_pi_multiples NPY_PI_bounds o by simp
  show "rnd (pi / 4) = Fin (NPY_PI / 4)"
    using rnd_nonneg_Fin [of "pi / 4"] round_real_pi_multiples NPY_PI_bounds o by simp
qed

lemma RAD2DEG_value: "RAD2DEG = 1007958012753983 / 2 ^ 44"
  unfolding RAD2DEG_def NPY_PI_def
  by (subst round_real_normal(1) [of 5]) (simp_all add: rne_def Let_def)

lemma DEG2RAD_value: "DEG2RAD = 5030569068109113 / 2 ^ 58"
  unfolding DEG2RAD_def NPY_PI_def
  by (subst round_real_normal(1) [of "- 6"]) (simp_all add: rne_def Let_def)

lemma degrees_of_pi: "np_degrees (Fin NPY_PI) = Fin 180"
  unfolding np_degrees.simps RAD2DEG_value NPY_PI_def
  by (subst rnd_normal [of 7]) (simp_all add: rne_def Let_def)

lemma degrees_of_half_pi: "np_degrees (Fin (NPY_PI / 2)) = Fin 90"
  unfolding np_degrees.simps RAD2DEG_value NPY_PI_def
  by (subst rnd_normal [of 6]) (simp_all add: rne_def Let_def)

lemma degrees_of_quarter_pi: "np_degrees (Fin (NPY_PI / 4)) = Fin 45"
  unfolding np_degrees.simps RAD2DEG_value NPY_PI_def
  by (subst rnd_normal [of 5]) (simp_all add: rne_def Let_def)

lemma rnd_Fin_round_real: "rnd x = Fin v \<Longrightarrow> round_real x = v"
  by (cases x rule: rnd_cases) auto

section \<open>The angle extractors\<close>

lemma is_f64_small_ints [simp]: "is_f64 1" "is_f64 2"
  using is_f64I [of 1 1 0] is_f64I [of 2 2 0] by simp_all

lemma is_f64_abs [simp]: "is_f64 \<bar>x\<bar> \<longleftrightarrow> is_f64 x"
  by (simp add: abs_if)

lemma finite64_cases:
  assumes "finite64 a"
  obtains x where "a = Fin x" "is_f64 x" | "a = NZero"
  using assms by (cases a) auto

lemma below_f_eps:
  assumes "is_f64 a"
  shows "py_lt (Fin \<bar>a\<bar>) f_eps \<longleftrightarrow> \<bar>a\<bar> < 1 / 10 ^ 10"
proof -
  let ?E = "7737125245533627 / 2 ^ 86 :: real"
  have E: "1 / 10 ^ 10 < ?E" by simp
  have "\<bar>a\<bar> < 1 / 10 ^ 10" if lt: "\<bar>a\<bar> < ?E"
  proof (cases "\<bar>a\<bar> < 2 powi (- 34)")
    case True
    then show ?thesis by simp
  next
    case False
    then have lo: "2 powi (- 34) \<le> \<bar>\<bar>a\<bar>\<bar>" by simp
    have hi: "\<bar>\<bar>a\<bar>\<bar> < 2 powi (- 34 + 1)" using lt by simp
    have q: "ulp_exp \<bar>a\<bar> = - 86" using ulp_exp_eqI [OF lo hi] by simp
    have "is_f64 \<bar>a\<bar>" using assms by simp
    then obtain k where k: "\<bar>a\<bar> = of_int k * 2 powi (- 86)"
      using is_f64_grid [of "\<bar>a\<bar>"] q by auto
    then have "real_of_int k < 7737125245533627" using lt by (simp add: field_simps)
    then have "k \<le> 7737125245533626" by linarith
    then have "real_of_int k \<le> 7737125245533626" by linarith
    then have "\<bar>a\<bar> \<le> 7737125245533626 / 2 ^ 86" unfolding k by (simp add: field_simps)
    then show ?thesis by simp
  qed
  then show ?thesis using E by (auto simp: f_eps_value)
qed




lemma fAngle_in_plane:
  "fAngleYZ [x, y, z, w] =
     Inr (if py_lt (np_abs y) f_eps \<and> py_lt (np_abs z) f_eps then NaN
          else np_degrees (np_arctan2 z y))"
  "fAngleZX [x, y, z, w] =
     Inr (if py_lt (np_abs x) f_eps \<and> py_lt (np_abs z) f_eps then NaN
          else np_degrees (np_arctan2 x z))"
  "fAngleXY [x, y, z, w] =
     Inr (if py_lt (np_abs x) f_eps \<and> py_lt (np_abs y) f_eps then NaN
          else np_degrees (np_arctan2 y x))"
  by (simp_all add: fAngleYZ_def fAngleZX_def fAngleXY_def np_nan_def)

lemma atan2_range:
  assumes "0 \<le> v"
  shows "0 \<le> atan2 v x" "atan2 v x \<le> pi"
proof -
  have b: "- (pi / 2) < arctan (v / x)" "arctan (v / x) < pi / 2"
    using arctan_lbound arctan_ubound by auto
  have pos: "0 \<le> arctan (v / x)" if "0 < x"
  proof -
    have "0 \<le> v / x" using assms that by simp
    then have "arctan 0 \<le> arctan (v / x)" by (rule arctan_monotone')
    then show ?thesis by simp
  qed
  have neg: "arctan (v / x) \<le> 0" if "x < 0"
  proof -
    have "v / x \<le> 0" using assms that by (simp add: divide_nonneg_neg)
    then have "arctan (v / x) \<le> arctan 0" by (rule arctan_monotone')
    then show ?thesis by simp
  qed
  have p: "0 < pi" by simp
  show "0 \<le> atan2 v x"
  proof (cases "0 < x")
    case True then show ?thesis using pos by (simp add: atan2_def)
  next
    case False
    then show ?thesis using b p assms by (cases "x < 0") (auto simp: atan2_def)
  qed
  show "atan2 v x \<le> pi"
  proof (cases "0 < x")
    case True then show ?thesis using b p by (simp add: atan2_def)
  next
    case False
    then show ?thesis using neg p assms by (cases "x < 0") (auto simp: atan2_def)
  qed
qed

lemma rnd_nonneg:
  assumes "0 \<le> x"
  shows "rnd x = PInf \<or> (\<exists>v. rnd x = Fin v \<and> 0 \<le> v)"
proof -
  have "round_real 0 \<le> round_real x" using assms by (rule round_real_mono)
  then have "0 \<le> round_real x" by simp
  then show ?thesis using overflow_bound_pos assms by (cases x rule: rnd_cases) auto
qed

lemma rnd_between:
  assumes "0 \<le> x" "x \<le> y" "round_real y \<le> c" "c < overflow_bound"
  shows "\<exists>v. rnd x = Fin v \<and> 0 \<le> v \<and> v \<le> round_real y"
proof -
  have "0 \<le> round_real x" "round_real x \<le> round_real y"
    using round_real_mono [OF assms(1)] round_real_mono [OF assms(2)] by simp_all
  moreover from this have "\<bar>round_real x\<bar> < overflow_bound" using assms(3,4) by simp
  ultimately show ?thesis using rnd_nonneg_Fin [of x] assms(1) by simp
qed

lemma rnd_in_0_pi:
  assumes "0 \<le> t" "t \<le> pi"
  shows "\<exists>v. rnd t = Fin v \<and> 0 \<le> v \<and> v \<le> NPY_PI"
  using rnd_between [OF assms, of 4] NPY_PI_bounds
  by (simp add: round_real_pi_multiples overflow_bound_def)

lemma degrees_range:
  assumes "0 \<le> t" "t \<le> NPY_PI"
  shows "\<exists>d. np_degrees (Fin t) = Fin d \<and> 0 \<le> d \<and> d \<le> 180"
proof -
  have r: "0 < RAD2DEG" by (simp add: RAD2DEG_value)
  have "0 \<le> t * RAD2DEG" using assms(1) r by simp
  moreover have "t * RAD2DEG \<le> NPY_PI * RAD2DEG" using assms(2) r by simp
  moreover have "round_real (NPY_PI * RAD2DEG) = 180"
    using degrees_of_pi by (intro rnd_Fin_round_real) simp
  moreover have "180 < overflow_bound" by (simp add: overflow_bound_def)
  ultimately show ?thesis using rnd_between [of "t * RAD2DEG" "NPY_PI * RAD2DEG" 180] by simp
qed

lemma np_power_2_nonneg:
  assumes "finite64 a"
  shows "np_power a 2 = PInf \<or> (\<exists>v. np_power a 2 = Fin v \<and> 0 \<le> v)"
  using assms
proof (cases a rule: finite64_cases)
  case (1 x)
  then show ?thesis using rnd_nonneg [of "x ^ 2"] by (simp add: np_power_def)
next
  case 2
  then show ?thesis by (simp add: np_power_def)
qed

lemma np_power_2_zero:
  assumes "finite64 a" "real_of a = 0"
  shows "np_power a 2 = Fin 0"
  using assms by (cases a rule: finite64_cases) (simp_all add: np_power_def)

lemma radius_nonneg:
  assumes "finite64 a" "finite64 b"
  defines "r \<equiv> np_sqrt (py_add (np_power a 2) (np_power b 2))"
  shows "r = PInf \<or> (\<exists>v. r = Fin v \<and> 0 \<le> v)"
proof -
  have "py_add (np_power a 2) (np_power b 2) = PInf \<or>
        (\<exists>v. py_add (np_power a 2) (np_power b 2) = Fin v \<and> 0 \<le> v)"
    using np_power_2_nonneg [OF assms(1)] np_power_2_nonneg [OF assms(2)] rnd_nonneg
    by (elim disjE exE conjE) auto
  then show ?thesis unfolding r_def using rnd_nonneg [of "sqrt _"] by (elim disjE exE conjE) auto
qed

lemma radius_zero:
  assumes "finite64 a" "finite64 b" "real_of a = 0" "real_of b = 0"
  shows "np_sqrt (py_add (np_power a 2) (np_power b 2)) = Fin 0"
  using np_power_2_zero [OF assms(1,3)] np_power_2_zero [OF assms(2,4)] by simp

lemma elevation_range:
  assumes "r = PInf \<or> (\<exists>v. r = Fin v \<and> 0 \<le> v)" "finite64 x"
  shows "\<exists>d. np_degrees (np_arctan2 r x) = Fin d \<and> 0 \<le> d \<and> d \<le> 180"
proof -
  have h: "0 \<le> NPY_PI / 2" "NPY_PI / 2 \<le> NPY_PI" "0 \<le> NPY_PI" using NPY_PI_bounds by simp_all
  have half: "\<exists>t. rnd (pi / 2) = Fin t \<and> 0 \<le> t \<and> t \<le> NPY_PI"
    unfolding rnd_pi_multiples using h by blast
  have whole: "\<exists>t. rnd pi = Fin t \<and> 0 \<le> t \<and> t \<le> NPY_PI"
    unfolding rnd_pi_multiples using h by blast
  have "\<exists>t. np_arctan2 r x = Fin t \<and> 0 \<le> t \<and> t \<le> NPY_PI"
    using assms(2)
  proof (cases x rule: finite64_cases)
    case (1 x')
    show ?thesis using assms(1)
    proof (elim disjE exE conjE)
      assume "r = PInf"
      then show ?thesis using 1 half by simp
    next
      fix v assume "r = Fin v" "0 \<le> v"
      then show ?thesis using 1 rnd_in_0_pi [of "atan2 v x'"] atan2_range [of v x'] by simp
    qed
  next
    case 2
    show ?thesis using assms(1)
    proof (elim disjE exE conjE)
      assume "r = PInf"
      then show ?thesis using 2 half by simp
    next
      fix v assume v: "r = Fin v" "0 \<le> v"
      show ?thesis
      proof (cases "0 < v")
        case True
        then show ?thesis using v 2 half by simp
      next
        case False
        then show ?thesis using v 2 whole by simp
      qed
    qed
  qed
  then show ?thesis using degrees_range by auto
qed

lemma fAngle_elevation:
  "fAngleXR [x, y, z, w] =
     Inr (np_degrees (np_arctan2 (np_sqrt (py_add (np_power z 2) (np_power y 2))) x))"
  "fAngleYR [x, y, z, w] =
     Inr (np_degrees (np_arctan2 (np_sqrt (py_add (np_power z 2) (np_power x 2))) y))"
  "fAngleZR [x, y, z, w] =
     Inr (np_degrees (np_arctan2 (np_sqrt (py_add (np_power x 2) (np_power y 2))) z))"
  by (simp_all add: fAngleXR_def fAngleYR_def fAngleZR_def)

lemma elevation_at_zero_radius:
  "np_degrees (np_arctan2 (Fin 0) (Fin 0)) = Fin 0"
  "np_degrees (np_arctan2 (Fin 0) NZero) = Fin 180"
proof -
  show "np_degrees (np_arctan2 (Fin 0) (Fin 0)) = Fin 0" by (simp add: atan2_def)
  show "np_degrees (np_arctan2 (Fin 0) NZero) = Fin 180"
    by (simp add: rnd_pi_multiples degrees_of_pi del: np_degrees.simps)
qed

subsection \<open>Integer coordinates\<close>

lemma wrap_int64_id: "int64 n \<Longrightarrow> wrap_int64 n = n"
  by (simp add: int64_def wrap_int64_def)

lemma squares_int64:
  fixes a b :: int
  assumes "a ^ 2 + b ^ 2 < 2 ^ 63"
  shows "add_int64 (np_power_int64 a 2) (np_power_int64 b 2) = a ^ 2 + b ^ 2"
proof -
  have n: "0 \<le> a ^ 2" "0 \<le> b ^ 2" by simp_all
  have "int64 (a ^ 2)" "int64 (b ^ 2)" "int64 (a ^ 2 + b ^ 2)"
    unfolding int64_def using n assms by linarith+
  then show ?thesis by (simp add: add_int64_def np_power_int64_def wrap_int64_id)
qed

lemma is_f64_pow63: "is_f64 (2 ^ 63)"
  using is_f64I [of "2 ^ 63" 1 63] by simp

lemma float_of_int64_finite:
  assumes "int64 n"
  shows "finite64 (float_of_int64 n)"
proof -
  let ?x = "real_of_int n"
  have b: "- (2 ^ 63) \<le> ?x" "?x \<le> 2 ^ 63"
  proof -
    have "- (2 ^ 63) \<le> n" "n \<le> 2 ^ 63" using assms by (simp_all add: int64_def)
    then have "real_of_int (- (2 ^ 63)) \<le> ?x" "?x \<le> real_of_int (2 ^ 63)"
      by (simp_all only: of_int_le_iff)
    then show "- (2 ^ 63) \<le> ?x" "?x \<le> 2 ^ 63" by simp_all
  qed
  have e: "round_real (2 ^ 63) = 2 ^ 63" "round_real (- (2 ^ 63)) = - (2 ^ 63)"
    using is_f64_pow63 by (simp_all add: is_f64_iff round_real_minus)
  have r: "- (2 ^ 63) \<le> round_real ?x" "round_real ?x \<le> 2 ^ 63"
    using round_real_mono [OF b(1)] round_real_mono [OF b(2)] e by simp_all
  have o: "(2::real) ^ 63 < overflow_bound" by (simp add: overflow_bound_def)
  show ?thesis
  proof (cases ?x rule: rnd_cases)
    case 4
    then show ?thesis using round_real_is_f64 [of ?x] by (simp add: float_of_int64_def)
  qed (use r o in \<open>simp_all add: float_of_int64_def\<close>)
qed

lemma float_of_int64_nonneg:
  assumes "0 \<le> n"
  shows "float_of_int64 n = PInf \<or> (\<exists>v. float_of_int64 n = Fin v \<and> 0 \<le> v)"
  unfolding float_of_int64_def using assms by (intro rnd_nonneg) simp

lemma radius_int64_nonneg:
  assumes "0 \<le> n"
  defines "r \<equiv> np_sqrt (float_of_int64 n)"
  shows "r = PInf \<or> (\<exists>v. r = Fin v \<and> 0 \<le> v)"
  unfolding r_def using float_of_int64_nonneg [OF assms(1)] rnd_nonneg [of "sqrt _"]
  by (elim disjE exE conjE) auto

lemma fAngle_elevation_int64:
  "fAngleXR_int64 [x, y, z, w] =
     Inr (np_degrees (np_arctan2
       (np_sqrt (float_of_int64 (add_int64 (np_power_int64 z 2) (np_power_int64 y 2))))
       (float_of_int64 x)))"
  "fAngleYR_int64 [x, y, z, w] =
     Inr (np_degrees (np_arctan2
       (np_sqrt (float_of_int64 (add_int64 (np_power_int64 z 2) (np_power_int64 x 2))))
       (float_of_int64 y)))"
  "fAngleZR_int64 [x, y, z, w] =
     Inr (np_degrees (np_arctan2
       (np_sqrt (float_of_int64 (add_int64 (np_power_int64 x 2) (np_power_int64 y 2))))
       (float_of_int64 z)))"
  by (simp_all add: fAngleXR_int64_def fAngleYR_int64_def fAngleZR_int64_def)

lemma elevation_int64:
  fixes a b c :: int
  assumes "int64 c" "a ^ 2 + b ^ 2 < 2 ^ 63"
  defines "t \<equiv> np_degrees (np_arctan2
     (np_sqrt (float_of_int64 (add_int64 (np_power_int64 a 2) (np_power_int64 b 2))))
     (float_of_int64 c))"
  shows "t = np_degrees (np_arctan2 (np_sqrt (float_of_int64 (a ^ 2 + b ^ 2))) (float_of_int64 c))"
    and "\<exists>d. t = Fin d \<and> 0 \<le> d \<and> d \<le> 180"
proof -
  have n: "0 \<le> a ^ 2 + b ^ 2" by simp
  show s: "t = np_degrees (np_arctan2 (np_sqrt (float_of_int64 (a ^ 2 + b ^ 2)))
             (float_of_int64 c))"
    unfolding t_def squares_int64 [OF assms(2)] ..
  show "\<exists>d. t = Fin d \<and> 0 \<le> d \<and> d \<le> 180"
    unfolding s using radius_int64_nonneg [OF n] float_of_int64_finite [OF assms(1)]
    by (rule elevation_range)
qed

lemma elevation_int64_origin:
  "np_degrees (np_arctan2
     (np_sqrt (float_of_int64 (add_int64 (np_power_int64 0 2) (np_power_int64 0 2))))
     (float_of_int64 0)) = Fin 0"
  by (simp add: float_of_int64_def add_int64_def np_power_int64_def wrap_int64_def atan2_def)

text \<open>
  The square of 3037000500 exceeds the largest \<^verbatim>\<open>int64\<close>: it wraps to a negative
  integer, whose square root is not a number.
\<close>

lemma squares_int64_overflow:
  "add_int64 (np_power_int64 0 2) (np_power_int64 3037000500 2) = - 9223372036709301616"
  by (simp add: add_int64_def np_power_int64_def wrap_int64_def)

lemma sqrt_of_negative_int64: "np_sqrt (float_of_int64 (- 9223372036709301616)) = NaN"
proof -
  have "float_of_int64 (- 9223372036709301616)
          = Fin (of_int (rne (- 9223372036709301616 / 2 powi (62 - 52))) * 2 powi (62 - 52))"
    unfolding float_of_int64_def using rnd_normal [of 62 "- 9223372036709301616"] by simp
  also have "rne (- 9223372036709301616 / 2 powi (62 - 52)) = - 9007199254598927"
    by (simp add: rne_def Let_def)
  finally show ?thesis by simp
qed

subsection \<open>Values at given points\<close>

lemma rnd_small_ints [simp]: "rnd 1 = Fin 1" "rnd 2 = Fin 2"
  by (simp_all add: rnd_exact)

lemma degrees_arctan2_examples:
  "np_degrees (np_arctan2 (Fin 1) (Fin 1)) = Fin 45"
  "np_degrees (np_arctan2 (Fin 1) (Fin 0)) = Fin 90"
proof -
  have a: "atan2 1 1 = pi / 4" "atan2 1 0 = pi / 2" by (simp_all add: atan2_def arctan_one)
  show "np_degrees (np_arctan2 (Fin 1) (Fin 1)) = Fin 45"
    "np_degrees (np_arctan2 (Fin 1) (Fin 0)) = Fin 90"
    by (simp_all add: a rnd_pi_multiples degrees_of_half_pi degrees_of_quarter_pi
        del: np_degrees.simps)
qed

lemma fAngle_values:
  "fAngleYZ [Fin 2, Fin 1, Fin 1, Fin 1] = Inr (Fin 45)"
  "fAngleXR [Fin 0, Fin 1, Fin 0, Fin 1] = Inr (Fin 90)"
proof -
  have "\<not> py_lt (Fin \<bar>1\<bar>) f_eps" using below_f_eps [of 1] by simp
  then show "fAngleYZ [Fin 2, Fin 1, Fin 1, Fin 1] = Inr (Fin 45)"
    using degrees_arctan2_examples(1) by (simp add: fAngle_in_plane)
  show "fAngleXR [Fin 0, Fin 1, Fin 0, Fin 1] = Inr (Fin 90)"
    using degrees_arctan2_examples(2) by (simp add: fAngle_elevation np_power_def)
qed

section \<open>The in-plane angles\<close>





section \<open>The angles between an axis and the point\<close>

text \<open>
  Claim C3, as the code has it. For every point whose coordinates are finite floats, each
  of \<^verbatim>\<open>fAngleXR\<close>, \<^verbatim>\<open>fAngleYR\<close> and \<^verbatim>\<open>fAngleZR\<close> returns the degrees of
  the two-argument arctangent of \<open>r\<close> and the coordinate of its axis, where \<open>r\<close> is the
  square root of the sum of the squares of the other two coordinates as binary64 arithmetic
  computes it. The result is a number between 0 and 180 and never the sentinel: there is no
  test against the tolerance. At the origin the result is 0 when the coordinate of the axis
  is the positive zero and 180 when it is the negative zero. The same formula and range
  hold for a point of 64-bit integer coordinates as long as the sum of the two squares is
  below \<open>2 ^ 63\<close>, and the integer origin yields 0.
\<close>

theorem elevation_angle:
  assumes "finite64 x" "finite64 y" "finite64 z" "int64 i" "int64 j" "int64 k"
  shows "fAngleXR [x, y, z, w] =
           Inr (np_degrees (np_arctan2 (np_sqrt (py_add (np_power z 2) (np_power y 2))) x)) \<and>
         fAngleYR [x, y, z, w] =
           Inr (np_degrees (np_arctan2 (np_sqrt (py_add (np_power z 2) (np_power x 2))) y)) \<and>
         fAngleZR [x, y, z, w] =
           Inr (np_degrees (np_arctan2 (np_sqrt (py_add (np_power x 2) (np_power y 2))) z)) \<and>
         (\<exists>d. fAngleXR [x, y, z, w] = Inr (Fin d) \<and> 0 \<le> d \<and> d \<le> 180) \<and>
         (\<exists>d. fAngleYR [x, y, z, w] = Inr (Fin d) \<and> 0 \<le> d \<and> d \<le> 180) \<and>
         (\<exists>d. fAngleZR [x, y, z, w] = Inr (Fin d) \<and> 0 \<le> d \<and> d \<le> 180) \<and>
         (real_of y = 0 \<and> real_of z = 0 \<longrightarrow>
            fAngleXR [Fin 0, y, z, w] = Inr (Fin 0) \<and>
            fAngleXR [NZero, y, z, w] = Inr (Fin 180)) \<and>
         (real_of x = 0 \<and> real_of z = 0 \<longrightarrow>
            fAngleYR [x, Fin 0, z, w] = Inr (Fin 0) \<and>
            fAngleYR [x, NZero, z, w] = Inr (Fin 180)) \<and>
         (real_of x = 0 \<and> real_of y = 0 \<longrightarrow>
            fAngleZR [x, y, Fin 0, w] = Inr (Fin 0) \<and>
            fAngleZR [x, y, NZero, w] = Inr (Fin 180)) \<and>
         (k ^ 2 + j ^ 2 < 2 ^ 63 \<longrightarrow>
            fAngleXR_int64 [i, j, k, l] =
              Inr (np_degrees (np_arctan2 (np_sqrt (float_of_int64 (k ^ 2 + j ^ 2)))
                     (float_of_int64 i))) \<and>
            (\<exists>d. fAngleXR_int64 [i, j, k, l] = Inr (Fin d) \<and> 0 \<le> d \<and> d \<le> 180)) \<and>
         (k ^ 2 + i ^ 2 < 2 ^ 63 \<longrightarrow>
            fAngleYR_int64 [i, j, k, l] =
              Inr (np_degrees (np_arctan2 (np_sqrt (float_of_int64 (k ^ 2 + i ^ 2)))
                     (float_of_int64 j))) \<and>
            (\<exists>d. fAngleYR_int64 [i, j, k, l] = Inr (Fin d) \<and> 0 \<le> d \<and> d \<le> 180)) \<and>
         (i ^ 2 + j ^ 2 < 2 ^ 63 \<longrightarrow>
            fAngleZR_int64 [i, j, k, l] =
              Inr (np_degrees (np_arctan2 (np_sqrt (float_of_int64 (i ^ 2 + j ^ 2)))
                     (float_of_int64 k))) \<and>
            (\<exists>d. fAngleZR_int64 [i, j, k, l] = Inr (Fin d) \<and> 0 \<le> d \<and> d \<le> 180)) \<and>
         fAngleXR_int64 [0, 0, 0, l] = Inr (Fin 0) \<and>
         fAngleYR_int64 [0, 0, 0, l] = Inr (Fin 0) \<and>
         fAngleZR_int64 [0, 0, 0, l] = Inr (Fin 0)"
proof -
  note r = radius_nonneg [OF assms(3) assms(2)] radius_nonneg [OF assms(3) assms(1)]
    radius_nonneg [OF assms(1) assms(2)]
  note e = elevation_range [OF r(1) assms(1)] elevation_range [OF r(2) assms(2)]
    elevation_range [OF r(3) assms(3)]
  note z = radius_zero [OF assms(3) assms(2)] radius_zero [OF assms(3) assms(1)]
    radius_zero [OF assms(1) assms(2)]
  have floats:
    "(\<exists>d. fAngleXR [x, y, z, w] = Inr (Fin d) \<and> 0 \<le> d \<and> d \<le> 180) \<and>
     (\<exists>d. fAngleYR [x, y, z, w] = Inr (Fin d) \<and> 0 \<le> d \<and> d \<le> 180) \<and>
     (\<exists>d. fAngleZR [x, y, z, w] = Inr (Fin d) \<and> 0 \<le> d \<and> d \<le> 180) \<and>
     (real_of y = 0 \<and> real_of z = 0 \<longrightarrow>
        fAngleXR [Fin 0, y, z, w] = Inr (Fin 0) \<and>
        fAngleXR [NZero, y, z, w] = Inr (Fin 180)) \<and>
     (real_of x = 0 \<and> real_of z = 0 \<longrightarrow>
        fAngleYR [x, Fin 0, z, w] = Inr (Fin 0) \<and>
        fAngleYR [x, NZero, z, w] = Inr (Fin 180)) \<and>
     (real_of x = 0 \<and> real_of y = 0 \<longrightarrow>
        fAngleZR [x, y, Fin 0, w] = Inr (Fin 0) \<and>
        fAngleZR [x, y, NZero, w] = Inr (Fin 180))"
    unfolding fAngle_elevation using e z elevation_at_zero_radius by simp
  have ints:
    "(k ^ 2 + j ^ 2 < 2 ^ 63 \<longrightarrow>
        fAngleXR_int64 [i, j, k, l] =
          Inr (np_degrees (np_arctan2 (np_sqrt (float_of_int64 (k ^ 2 + j ^ 2)))
                 (float_of_int64 i))) \<and>
        (\<exists>d. fAngleXR_int64 [i, j, k, l] = Inr (Fin d) \<and> 0 \<le> d \<and> d \<le> 180))"
    "(k ^ 2 + i ^ 2 < 2 ^ 63 \<longrightarrow>
        fAngleYR_int64 [i, j, k, l] =
          Inr (np_degrees (np_arctan2 (np_sqrt (float_of_int64 (k ^ 2 + i ^ 2)))
                 (float_of_int64 j))) \<and>
        (\<exists>d. fAngleYR_int64 [i, j, k, l] = Inr (Fin d) \<and> 0 \<le> d \<and> d \<le> 180))"
    "(i ^ 2 + j ^ 2 < 2 ^ 63 \<longrightarrow>
        fAngleZR_int64 [i, j, k, l] =
          Inr (np_degrees (np_arctan2 (np_sqrt (float_of_int64 (i ^ 2 + j ^ 2)))
                 (float_of_int64 k))) \<and>
        (\<exists>d. fAngleZR_int64 [i, j, k, l] = Inr (Fin d) \<and> 0 \<le> d \<and> d \<le> 180))"
    unfolding fAngle_elevation_int64
    using elevation_int64 [OF assms(4), of k j] elevation_int64 [OF assms(5), of k i]
      elevation_int64 [OF assms(6), of i j]
    by simp_all
  have origin:
    "fAngleXR_int64 [0, 0, 0, l] = Inr (Fin 0) \<and>
     fAngleYR_int64 [0, 0, 0, l] = Inr (Fin 0) \<and>
     fAngleZR_int64 [0, 0, 0, l] = Inr (Fin 0)"
    unfolding fAngle_elevation_int64 using elevation_int64_origin by simp
  show ?thesis using fAngle_elevation [of x y z w] floats ints origin by blast
qed

theorem elevation_angle_witness:
  "finite64 (Fin 0) \<and> finite64 (Fin 1) \<and> finite64 NZero \<and> int64 0 \<and> int64 1 \<and>
   fAngleXR [Fin 0, Fin 1, Fin 0, Fin 1] = Inr (Fin 90) \<and>
   (\<exists>d. fAngleYR [Fin 0, Fin 1, Fin 0, Fin 1] = Inr (Fin d) \<and> 0 \<le> d \<and> d \<le> 180) \<and>
   (\<exists>d. fAngleZR [Fin 0, Fin 1, Fin 0, Fin 1] = Inr (Fin d) \<and> 0 \<le> d \<and> d \<le> 180) \<and>
   fAngleXR [Fin 0, Fin 0, Fin 0, Fin 1] = Inr (Fin 0) \<and>
   fAngleXR [NZero, Fin 0, NZero, Fin 1] = Inr (Fin 180) \<and>
   fAngleXR_int64 [0, 1, 0, 1] = Inr (Fin 90) \<and>
   (\<exists>d. fAngleYR_int64 [0, 1, 0, 1] = Inr (Fin d) \<and> 0 \<le> d \<and> d \<le> 180) \<and>
   fAngleXR_int64 [0, 0, 0, 1] = Inr (Fin 0)"
proof -
  have h: "finite64 (Fin 0)" "finite64 (Fin 1)" "finite64 NZero" "int64 0" "int64 1"
    by (simp_all add: int64_def)
  have e: "np_degrees (np_arctan2 (np_sqrt (py_add (np_power (Fin 0) 2) (np_power (Fin 1) 2)))
             (Fin 0)) = Fin 90"
    using degrees_arctan2_examples(2) by (simp add: np_power_def)
  have f: "np_degrees (np_arctan2 (np_sqrt (float_of_int64 (0 ^ 2 + 1 ^ 2))) (float_of_int64 0))
             = Fin 90"
    using degrees_arctan2_examples(2) by (simp add: float_of_int64_def)
  have z: "real_of (Fin 0) = 0 \<and> real_of (Fin 0) = 0" "real_of (Fin 0) = 0 \<and> real_of NZero = 0"
    by simp_all
  have s: "(0::int) ^ 2 + 1 ^ 2 < 2 ^ 63" "(0::int) ^ 2 + 0 ^ 2 < 2 ^ 63" by simp_all
  note t = elevation_angle [OF h(1) h(2) h(1) h(4) h(5) h(4), of "Fin 1" 1]
    elevation_angle [OF h(1) h(1) h(1) h(4) h(4) h(4), of "Fin 1" 1]
    elevation_angle [OF h(1) h(1) h(3) h(4) h(4) h(4), of "Fin 1" 1]
  from t(1) e have a1: "fAngleXR [Fin 0, Fin 1, Fin 0, Fin 1] = Inr (Fin 90)" by metis
  from t(1) have a2:
    "\<exists>d. fAngleYR [Fin 0, Fin 1, Fin 0, Fin 1] = Inr (Fin d) \<and> 0 \<le> d \<and> d \<le> 180"
    "\<exists>d. fAngleZR [Fin 0, Fin 1, Fin 0, Fin 1] = Inr (Fin d) \<and> 0 \<le> d \<and> d \<le> 180"
    by blast+
  from t(2) z(1) have a3: "fAngleXR [Fin 0, Fin 0, Fin 0, Fin 1] = Inr (Fin 0)" by blast
  from t(3) z(2) have a4: "fAngleXR [NZero, Fin 0, NZero, Fin 1] = Inr (Fin 180)" by blast
  from t(1) s(1) f have a5: "fAngleXR_int64 [0, 1, 0, 1] = Inr (Fin 90)" by metis
  from t(1) s(2) have a6:
    "\<exists>d. fAngleYR_int64 [0, 1, 0, 1] = Inr (Fin d) \<and> 0 \<le> d \<and> d \<le> 180"
    by blast
  from t(1) have a7: "fAngleXR_int64 [0, 0, 0, 1] = Inr (Fin 0)" by blast
  show ?thesis using h a1 a2 a3 a4 a5 a6 a7 by blast
qed

text \<open>
  The claim as the specification states it, for every point with finite coordinates and with
  0 at the origin, fails at two points. At the origin whose first coordinate is the negative
  zero the two-argument arctangent of \<open>(+0, -0)\<close> is \<open>pi\<close> and \<^verbatim>\<open>fAngleXR\<close>
  returns 180. At the integer point \<open>[0, 3037000500, 0, 1]\<close> the square wraps around to a
  negative \<^verbatim>\<open>int64\<close> and \<^verbatim>\<open>fAngleXR\<close> returns not-a-number.
\<close>

theorem elevation_origin_negative_zero:
  "finite64 NZero \<and> finite64 (Fin 0) \<and>
   fAngleXR [NZero, Fin 0, Fin 0, Fin 1] = Inr (Fin 180) \<and>
   fAngleXR [NZero, Fin 0, Fin 0, Fin 1] \<noteq> Inr (Fin 0) \<and>
   int64 0 \<and> int64 3037000500 \<and>
   fAngleXR_int64 [0, 3037000500, 0, 1] = Inr NaN"
proof -
  have "fAngleXR [NZero, Fin 0, Fin 0, Fin 1] = Inr (Fin 180)"
    by (simp add: fAngle_elevation np_power_def rnd_pi_multiples degrees_of_pi
        del: np_degrees.simps)
  moreover have "fAngleXR_int64 [0, 3037000500, 0, 1] = Inr NaN"
    unfolding fAngle_elevation_int64 squares_int64_overflow sqrt_of_negative_int64 by simp
  ultimately show ?thesis by (simp add: int64_def)
qed

section \<open>The sentinel passes through the angle ranges\<close>



section \<open>The layout of the matrices\<close>

text \<open>
  Claim C7. For every angle, with \<open>co\<close> and \<open>si\<close> the cosine and sine of the angle
  converted to radians: \<^verbatim>\<open>Rot_yz\<close> has \<open>[[co, -si], [si, co]]\<close> in its (y, z) block,
  \<^verbatim>\<open>Rot_zx\<close> has \<open>[[co, si], [-si, co]]\<close> in its (z, x) block (rows and columns 2
  and 0), \<^verbatim>\<open>Rot_xy\<close> has \<open>[[co, -si], [si, co]]\<close> in its (x, y) block, each is
  the identity in the row and column of its axis, \<^verbatim>\<open>Trans\<close> is the identity with the
  column \<open>(dx, dy, dz, 1)\<close>, and the bottom row of every one of them is \<open>[0, 0, 0, 1]\<close>.
\<close>

theorem builders_layout:
  fixes angle :: f64
  defines "co \<equiv> np_cos (np_radians angle)" and "si \<equiv> np_sin (np_radians angle)"
  shows "Rot_yz angle = [[Fin 1, Fin 0, Fin 0, Fin 0],
                         [Fin 0, co, py_neg si, Fin 0],
                         [Fin 0, si, co, Fin 0],
                         [Fin 0, Fin 0, Fin 0, Fin 1]] \<and>
         Rot_zx angle = [[co, Fin 0, si, Fin 0],
                         [Fin 0, Fin 1, Fin 0, Fin 0],
                         [py_neg si, Fin 0, co, Fin 0],
                         [Fin 0, Fin 0, Fin 0, Fin 1]] \<and>
         Rot_xy angle = [[co, py_neg si, Fin 0, Fin 0],
                         [si, co, Fin 0, Fin 0],
                         [Fin 0, Fin 0, Fin 1, Fin 0],
                         [Fin 0, Fin 0, Fin 0, Fin 1]] \<and>
         Trans dx dy dz = [[Fin 1, Fin 0, Fin 0, dx],
                           [Fin 0, Fin 1, Fin 0, dy],
                           [Fin 0, Fin 0, Fin 1, dz],
                           [Fin 0, Fin 0, Fin 0, Fin 1]] \<and>
         Rot_yz angle ! 3 = [Fin 0, Fin 0, Fin 0, Fin 1] \<and>
         Rot_zx angle ! 3 = [Fin 0, Fin 0, Fin 0, Fin 1] \<and>
         Rot_xy angle ! 3 = [Fin 0, Fin 0, Fin 0, Fin 1] \<and>
         Trans dx dy dz ! 3 = [Fin 0, Fin 0, Fin 0, Fin 1]"
  by (simp add: Rot_yz_def Rot_zx_def Rot_xy_def Trans_def co_def si_def Let_def)

section \<open>The batch functions\<close>

text \<open>
  Claim C8. For every sequence of points (each with the components x, y and z), of any
  length, each of the six batch extractors returns a sequence of the same length whose
  element \<open>i\<close> is the result of the scalar extractor on point \<open>i\<close>; the two batch range
  functions do the same with \<^verbatim>\<open>toAngle360\<close> and \<^verbatim>\<open>toAngle180\<close>. An element's
  result depends on that element only, so a sentinel in one slot leaves the others as they
  are. The empty sequence gives the empty sequence.
\<close>

theorem batch_elementwise:
  assumes "\<forall>p \<in> set ps. 3 \<le> length p"
  shows "(\<exists>rs. fAngleArrYZ ps = Inr rs \<and> length rs = length ps \<and>
              (\<forall>i < length ps. fAngleYZ (ps ! i) = Inr (rs ! i))) \<and>
         (\<exists>rs. fAngleArrZX ps = Inr rs \<and> length rs = length ps \<and>
              (\<forall>i < length ps. fAngleZX (ps ! i) = Inr (rs ! i))) \<and>
         (\<exists>rs. fAngleArrXY ps = Inr rs \<and> length rs = length ps \<and>
              (\<forall>i < length ps. fAngleXY (ps ! i) = Inr (rs ! i))) \<and>
         (\<exists>rs. fAngleArrXR ps = Inr rs \<and> length rs = length ps \<and>
              (\<forall>i < length ps. fAngleXR (ps ! i) = Inr (rs ! i))) \<and>
         (\<exists>rs. fAngleArrYR ps = Inr rs \<and> length rs = length ps \<and>
              (\<forall>i < length ps. fAngleYR (ps ! i) = Inr (rs ! i))) \<and>
         (\<exists>rs. fAngleArrZR ps = Inr rs \<and> length rs = length ps \<and>
              (\<forall>i < length ps. fAngleZR (ps ! i) = Inr (rs ! i))) \<and>
         length (toAngleArr360 angles) = length angles \<and>
         (\<forall>i < length angles. toAngleArr360 angles ! i = toAngle360 (angles ! i)) \<and>
         length (toAngleArr180 angles) = length angles \<and>
         (\<forall>i < length angles. toAngleArr180 angles ! i = toAngle180 (angles ! i)) \<and>
         fAngleArrYZ [] = Inr [] \<and> fAngleArrZX [] = Inr [] \<and> fAngleArrXY [] = Inr [] \<and>
         fAngleArrXR [] = Inr [] \<and> fAngleArrYR [] = Inr [] \<and> fAngleArrZR [] = Inr [] \<and>
         toAngleArr360 [] = [] \<and> toAngleArr180 [] = []"
proof -
  have t: "\<forall>p \<in> set ps. \<exists>v. fAngleYZ p = Inr v" "\<forall>p \<in> set ps. \<exists>v. fAngleZX p = Inr v"
    "\<forall>p \<in> set ps. \<exists>v. fAngleXY p = Inr v" "\<forall>p \<in> set ps. \<exists>v. fAngleXR p = Inr v"
    "\<forall>p \<in> set ps. \<exists>v. fAngleYR p = Inr v" "\<forall>p \<in> set ps. \<exists>v. fAngleZR p = Inr v"
    using assms extractor_total by blast+
  show ?thesis
    unfolding fAngleArrYZ_def fAngleArrZX_def fAngleArrXY_def fAngleArrXR_def
      fAngleArrYR_def fAngleArrZR_def toAngleArr360_def toAngleArr180_def
    using t [THEN batch_extractor] by simp
qed

theorem batch_elementwise_witness:
  "(\<exists>rs. fAngleArrYZ [[Fin 2, Fin 1, Fin 1, Fin 1], [Fin 0, Fin 0, Fin 0, Fin 1]] = Inr rs \<and>
      length rs = 2 \<and>
      fAngleYZ [Fin 2, Fin 1, Fin 1, Fin 1] = Inr (rs ! 0) \<and>
      fAngleYZ [Fin 0, Fin 0, Fin 0, Fin 1] = Inr (rs ! 1)) \<and>
   toAngleArr360 [NaN, Fin 360] ! 0 = toAngle360 NaN \<and>
   toAngleArr360 [NaN, Fin 360] ! 1 = toAngle360 (Fin 360)"
  using batch_elementwise [of "[[Fin 2, Fin 1, Fin 1, Fin 1], [Fin 0, Fin 0, Fin 0, Fin 1]]"
      "[NaN, Fin 360]"]
  by (auto simp: numeral_2_eq_2 All_less_Suc)

section \<open>The fourth component\<close>

text \<open>
  Claim C9. Each of the six angle extractors reads the components 0, 1 and 2 of its point
  only: two points that agree on x, y and z and differ in w give the same result.
\<close>

theorem w_ignored:
  "fAngleYZ [x, y, z, w] = fAngleYZ [x, y, z, w'] \<and>
   fAngleZX [x, y, z, w] = fAngleZX [x, y, z, w'] \<and>
   fAngleXY [x, y, z, w] = fAngleXY [x, y, z, w'] \<and>
   fAngleXR [x, y, z, w] = fAngleXR [x, y, z, w'] \<and>
   fAngleYR [x, y, z, w] = fAngleYR [x, y, z, w'] \<and>
   fAngleZR [x, y, z, w] = fAngleZR [x, y, z, w']"
  by (simp add: fAngleYZ_def fAngleZX_def fAngleXY_def fAngleXR_def fAngleYR_def
      fAngleZR_def)

section \<open>The range of toAngle180\<close>

text \<open>
  Claim C5. For every finite angle, \<^verbatim>\<open>toAngle180\<close> returns the result of
  \<^verbatim>\<open>toAngle360\<close> minus 360 when that result exceeds 180, and that result itself
  otherwise; the subtraction is exact, and what is returned lies in \<open>(-180, 180]\<close>.
\<close>

theorem toAngle180_range:
  assumes "finite64 angle"
  shows "\<exists>a r. toAngle360 angle = Fin a \<and> toAngle180 angle = Fin r \<and>
               r = (if 180 < a then a - 360 else a) \<and> - 180 < r \<and> r \<le> 180"
proof -
  obtain a where a: "toAngle360 angle = Fin a" "0 \<le> a" "a \<le> 360" "is_f64 a"
    using toAngle360_finite [OF assms] by auto
  show ?thesis
  proof (cases "180 < a")
    case True
    have "is_f64 (a - 360)" using a(4) True a(3) by (rule sub_360_is_f64)
    then have "rnd (a + - 360) = Fin (a - 360)" using rnd_exact [of "a - 360"] by simp
    then have "toAngle180 angle = Fin (a - 360)"
      using a(1) True by (simp add: toAngle180_def py_gt_def py_sub_def)
    then show ?thesis using a True by simp
  next
    case False
    then have "toAngle180 angle = Fin a" using a(1) by (simp add: toAngle180_def py_gt_def)
    then show ?thesis using a False by simp
  qed
qed

theorem toAngle180_range_witness:
  "finite64 (Fin 190) \<and> toAngle360 (Fin 190) = Fin 190 \<and> toAngle180 (Fin 190) = Fin (- 170)"
  using toAngle180_range [of "Fin 190"] is_f64_190 toAngle360_190 by auto

section \<open>The range of toAngle360\<close>

text \<open>
  Claim C4. \<^verbatim>\<open>toAngle360\<close> is documented to map into \<open>[0, 360)\<close>. At the
  float that the literal \<^verbatim>\<open>-1e-20\<close> denotes it returns 360: the remainder of
  \<^verbatim>\<open>fmod\<close> is the angle itself, the operator \<^verbatim>\<open>%\<close> adds 360 to it,
  and the sum rounds to 360; the test \<^verbatim>\<open>a < 0\<close> that follows never holds.
\<close>

theorem toAngle360_returns_360:
  "rnd (- (1 / 10 ^ 20)) = Fin (- (6646139978924579 / 2 ^ 119)) \<and>
   finite64 (Fin (- (6646139978924579 / 2 ^ 119))) \<and>
   toAngle360 (Fin (- (6646139978924579 / 2 ^ 119))) = Fin 360"
  using tiny_is_literal is_f64_tiny toAngle360_tiny by simp

section \<open>Applying a range function twice\<close>

text \<open>
  Claim C10. \<^verbatim>\<open>toAngle360\<close> is not idempotent at the float that the literal
  \<^verbatim>\<open>-1e-20\<close> denotes: the first application gives 360 and the second gives 0.
\<close>

theorem toAngle360_twice:
  "toAngle360 (Fin (- (6646139978924579 / 2 ^ 119))) = Fin 360 \<and>
   toAngle360 (toAngle360 (Fin (- (6646139978924579 / 2 ^ 119)))) = Fin 0"
  using toAngle360_tiny toAngle360_360 by simp

end
